theory Spec2Isabelle
  imports Main "HOL-Library.Signed_Division"
begin

section \<open>C integers\<close>

text \<open>
  The C type \<open>int\<close> is 32 bits wide.  Values are kept as HOL integers and every
  arithmetic operator of the source is followed by the two's complement wrap-around
  \<open>c_int\<close>; \<open>/\<close> truncates towards zero (\<open>sdiv\<close>).
\<close>

definition INT_MAX :: int where
  "INT_MAX = 2147483647"

definition c_int :: "int \<Rightarrow> int" where
  "c_int k = signed_take_bit 31 k"

definition c_add :: "int \<Rightarrow> int \<Rightarrow> int" where
  "c_add a b = c_int (a + b)"

definition c_sub :: "int \<Rightarrow> int \<Rightarrow> int" where
  "c_sub a b = c_int (a - b)"

definition c_mul :: "int \<Rightarrow> int \<Rightarrow> int" where
  "c_mul a b = c_int (a * b)"

definition c_div :: "int \<Rightarrow> int \<Rightarrow> int" where
  "c_div a b = c_int (a sdiv b)"

text \<open>
  Modelled from the spec: the macro \<open>MAX\<close> of the absent header \<open>utils.h\<close>; the spec
  says that every dimension is floored at a minimum dimension constant.
\<close>

definition MAX_int :: "int \<Rightarrow> int \<Rightarrow> int" where
  "MAX_int a b = (if a > b then a else b)"


section \<open>Data model\<close>

type_synonym window = nat

text \<open>A \<open>struct client *\<close>: an address, or \<open>None\<close> for \<open>NULL\<close>.\<close>

type_synonym cptr = "nat option"

text \<open>
  \<open>struct client\<close>.  The nested \<open>geom\<close> structure is flattened into the four
  \<open>geom_\<close> fields and the field \<open>ws\<close> is called \<open>c_ws\<close>.
\<close>

record client =
  window :: window
  c_ws :: int
  geom_x :: int
  geom_y :: int
  geom_width :: int
  geom_height :: int
  dec :: window
  decorated :: bool
  hidden :: bool
  x_hide :: int
  fullscreen :: bool
  "next" :: cptr
  f_next :: cptr

record monitor =
  mon_x :: int
  mon_y :: int
  mon_width :: int
  mon_height :: int
  mon_screen :: int

record config =
  b_width :: int
  i_width :: int
  t_height :: int
  top_gap :: int
  bf_color :: nat
  bu_color :: nat
  if_color :: nat
  iu_color :: nat
  edge_lock :: bool

datatype net_atom =
  NetActiveWindow | NetWMState | NetWMStateFullscreen | NetClientList | NetCurrentDesktop

datatype wm_atom = WMTakeFocus | WMDeleteWindow | WMProtocols

datatype prop_mode = PropModeReplace | PropModeAppend

datatype xdata = XWindow window | XAtom net_atom | XCardinal int

text \<open>The requests sent to the Display Surface, in the order in which they are issued.\<close>

datatype xcall =
    XMoveWindow window int int
  | XResizeWindow window int int
  | XRaiseWindow window
  | XLowerWindow window
  | XSetWindowBackground window nat
  | XSetWindowBorder window nat
  | XClearWindow window
  | XSetInputFocus window
  | XDeleteProperty window net_atom
  | XChangeProperty window net_atom prop_mode "xdata list"
  | XSendEvent window wm_atom

datatype direction = EAST | SOUTH | WEST | NORTH

text \<open>
  What the absent headers \<open>config.h\<close>, \<open>types.h\<close> and \<open>utils.h\<close> and the X server
  contribute: the number of workspaces, the minimum dimension, the distance function, the
  decoding of a direction code (\<open>None\<close> when the code is none of the four \<open>case\<close>
  labels) and the answer of \<open>XGetWMProtocols\<close> for a window (\<open>None\<close> when the call
  reports failure).
\<close>

record env =
  WORKSPACE_NUMBER :: int
  MINIMUM_DIM :: int
  euclidean_distance :: "client \<Rightarrow> client \<Rightarrow> int"
  direction_of :: "int \<Rightarrow> direction option"
  XGetWMProtocols :: "window \<Rightarrow> wm_atom list option"

text \<open>
  The static variables of \<open>wm.c\<close> that the modelled functions use, the store of all
  \<open>struct client\<close> objects and the trace of requests sent to the Display Surface.  Every
  address of the store holds a client: allocation and \<open>free\<close> are not part of the model,
  and the only invalid pointer is \<open>NULL\<close>.
\<close>

record wm =
  f_client :: cptr
  c_list :: "int \<Rightarrow> cptr"
  f_list :: "int \<Rightarrow> cptr"
  m_list :: "monitor list"
  conf :: config
  ws_m_list :: "int \<Rightarrow> int"
  curr_ws :: int
  display_width :: int
  root :: window
  heap :: "nat \<Rightarrow> client"
  xlog :: "xcall list"


section \<open>Results\<close>

text \<open>
  A call either does not return (\<open>None\<close>), stops at an invalid memory access
  (\<open>Some (Inl e)\<close>) or returns (\<open>Some (Inr v)\<close>).
\<close>

datatype error = NullPointer | OutOfBounds

type_synonym 'a res = "(error + 'a) option"

definition ok :: "'a \<Rightarrow> 'a res" where
  "ok v = Some (Inr v)"

definition fault :: "error \<Rightarrow> 'a res" where
  "fault e = Some (Inl e)"

definition and_then :: "'a res \<Rightarrow> ('a \<Rightarrow> 'b res) \<Rightarrow> 'b res" where
  "and_then m f = (case m of None \<Rightarrow> None | Some (Inl e) \<Rightarrow> Some (Inl e) | Some (Inr v) \<Rightarrow> f v)"

definition emit :: "xcall \<Rightarrow> wm \<Rightarrow> wm" where
  "emit call s = s\<lparr>xlog := xlog s @ [call]\<rparr>"

definition store :: "nat \<Rightarrow> client \<Rightarrow> wm \<Rightarrow> wm" where
  "store a cl s = s\<lparr>heap := (heap s)(a := cl)\<rparr>"

text \<open>The arrays indexed by a workspace have \<open>WORKSPACE_NUMBER\<close> elements.\<close>

definition in_ws :: "env \<Rightarrow> int \<Rightarrow> bool" where
  "in_ws K i = (0 \<le> i \<and> i < WORKSPACE_NUMBER K)"

text \<open>\<open>m_list[ws_m_list[ws]]\<close>, with both subscripts checked.\<close>

definition monitor_of :: "env \<Rightarrow> wm \<Rightarrow> int \<Rightarrow> error + monitor" where
  "monitor_of K s ws =
     (if \<not> in_ws K ws then Inl OutOfBounds
      else let mon = ws_m_list s ws in
        if 0 \<le> mon \<and> mon < int (length (m_list s)) then Inr (m_list s ! nat mon)
        else Inl OutOfBounds)"


section \<open>Geometry Engine\<close>

definition client_move_absolute :: "cptr \<Rightarrow> int \<Rightarrow> int \<Rightarrow> wm \<Rightarrow> wm res" where
  "client_move_absolute c x y s =
     (case c of None \<Rightarrow> fault NullPointer
      | Some a \<Rightarrow>
         let cl = heap s a;
             dest_x = (if decorated cl then c_add (c_add x (i_width (conf s))) (b_width (conf s)) else x);
             dest_y = (if decorated cl
                       then c_add (c_add (c_add y (i_width (conf s))) (b_width (conf s))) (t_height (conf s))
                       else y);
             s1 = emit (XMoveWindow (window cl) dest_x dest_y) s;
             s2 = (if decorated cl then emit (XMoveWindow (dec cl) x y) s1 else s1)
         in ok (store a ((heap s2 a)\<lparr>geom_x := x, geom_y := y\<rparr>) s2))"

definition client_move_relative :: "env \<Rightarrow> cptr \<Rightarrow> int \<Rightarrow> int \<Rightarrow> wm \<Rightarrow> wm res" where
  "client_move_relative K c x y s =
     (case c of None \<Rightarrow> fault NullPointer
      | Some a \<Rightarrow>
         let cl = heap s a in
         if edge_lock (conf s) then
           (case monitor_of K s (c_ws cl) of Inl e \<Rightarrow> fault e
            | Inr m \<Rightarrow>
               let dx = (if c_add (c_add (geom_x cl) (geom_width cl)) x > c_add (mon_width m) (mon_x m)
                         then c_sub (c_add (mon_width m) (mon_x m)) (geom_width cl)
                         else if c_add (geom_x cl) x < mon_x m then mon_x m
                         else c_add (geom_x cl) x);
                   dy = (if c_add (c_add (geom_y cl) (geom_height cl)) y > c_add (mon_height m) (mon_y m)
                         then c_sub (c_add (mon_height m) (mon_y m)) (geom_height cl)
                         else if c_add (geom_y cl) y < c_add (mon_y m) (top_gap (conf s)) then mon_y m
                         else c_add (geom_y cl) y)
               in client_move_absolute c dx dy s)
         else client_move_absolute c (c_add (geom_x cl) x) (c_add (geom_y cl) y) s)"

definition client_resize_absolute :: "env \<Rightarrow> cptr \<Rightarrow> int \<Rightarrow> int \<Rightarrow> wm \<Rightarrow> wm res" where
  "client_resize_absolute K c w h s =
     (case c of None \<Rightarrow> fault NullPointer
      | Some a \<Rightarrow>
         let cl = heap s a;
             dw = (if decorated cl
                   then c_sub (c_sub w (c_mul 2 (i_width (conf s)))) (c_mul 2 (b_width (conf s)))
                   else w);
             dh = (if decorated cl
                   then c_sub (c_sub (c_sub h (c_mul 2 (i_width (conf s)))) (c_mul 2 (b_width (conf s))))
                          (t_height (conf s))
                   else h);
             dec_w = (if decorated cl then c_sub w (c_mul 2 (b_width (conf s))) else w);
             dec_h = (if decorated cl then c_sub h (c_mul 2 (b_width (conf s))) else h);
             s1 = emit (XResizeWindow (window cl) (MAX_int dw (MINIMUM_DIM K)) (MAX_int dh (MINIMUM_DIM K))) s;
             s2 = (if decorated cl
                   then emit (XResizeWindow (dec cl) (MAX_int dec_w (MINIMUM_DIM K)) (MAX_int dec_h (MINIMUM_DIM K))) s1
                   else s1)
         in ok (store a ((heap s2 a)\<lparr>geom_width := MAX_int w (MINIMUM_DIM K),
                                     geom_height := MAX_int h (MINIMUM_DIM K)\<rparr>) s2))"

definition client_resize_relative :: "env \<Rightarrow> cptr \<Rightarrow> int \<Rightarrow> int \<Rightarrow> wm \<Rightarrow> wm res" where
  "client_resize_relative K c w h s =
     (case c of None \<Rightarrow> fault NullPointer
      | Some a \<Rightarrow>
         let cl = heap s a in
         if edge_lock (conf s) then
           (case monitor_of K s (c_ws cl) of Inl e \<Rightarrow> fault e
            | Inr m \<Rightarrow>
               let dw = (if c_add (c_add (geom_x cl) (geom_width cl)) w > c_add (mon_x m) (mon_width m)
                         then c_sub (c_add (mon_x m) (mon_width m)) (geom_x cl)
                         else c_add (geom_width cl) w);
                   dh = (if c_add (c_add (c_add (geom_y cl) (geom_height cl)) (t_height (conf s))) h
                              > c_add (mon_y m) (mon_height m)
                         then c_sub (c_add (mon_height m) (mon_y m)) (geom_y cl)
                         else c_add (geom_height cl) h)
               in client_resize_absolute K c dw dh s)
         else client_resize_absolute K c (c_add (geom_width cl) w) (c_add (geom_height cl) h) s)"

definition client_refresh :: "env \<Rightarrow> cptr \<Rightarrow> wm \<Rightarrow> wm res" where
  "client_refresh K c s =
     and_then (client_move_relative K c 0 0 s) (\<lambda>s1.
     and_then (client_resize_relative K c 0 0 s1) (\<lambda>s2.
     and_then (client_move_relative K c 0 0 s2) (\<lambda>s3.
     client_resize_relative K c 0 0 s3)))"


section \<open>Display requests for one client\<close>

definition client_set_color :: "cptr \<Rightarrow> nat \<Rightarrow> nat \<Rightarrow> wm \<Rightarrow> wm res" where
  "client_set_color c i_color b_color s =
     (case c of None \<Rightarrow> fault NullPointer
      | Some a \<Rightarrow>
         let cl = heap s a in
         if decorated cl
         then ok (emit (XClearWindow (dec cl))
                 (emit (XSetWindowBorder (dec cl) b_color)
                 (emit (XSetWindowBackground (dec cl) i_color) s)))
         else ok s)"

definition client_set_input :: "cptr \<Rightarrow> wm \<Rightarrow> wm res" where
  "client_set_input c s =
     (case c of None \<Rightarrow> fault NullPointer
      | Some a \<Rightarrow> ok (emit (XSetInputFocus (window (heap s a))) s))"

definition client_raise :: "cptr \<Rightarrow> wm \<Rightarrow> wm res" where
  "client_raise c s =
     (case c of None \<Rightarrow> ok s
      | Some a \<Rightarrow>
         let cl = heap s a;
             s1 = (if decorated cl then emit (XRaiseWindow (dec cl)) s else s)
         in ok (emit (XRaiseWindow (window cl)) s1))"

text \<open>The value returned by \<open>manage_xsend_icccm\<close> is used by no caller and is left out.\<close>

definition manage_xsend_icccm :: "env \<Rightarrow> cptr \<Rightarrow> wm_atom \<Rightarrow> wm \<Rightarrow> wm res" where
  "manage_xsend_icccm K c atom s =
     (case c of None \<Rightarrow> fault NullPointer
      | Some a \<Rightarrow>
         let cl = heap s a;
             exists = (case XGetWMProtocols K (window cl) of None \<Rightarrow> False
                       | Some protocols \<Rightarrow> atom \<in> set protocols)
         in if exists then ok (emit (XSendEvent (window cl) atom) s) else ok s)"

definition client_close :: "cptr \<Rightarrow> wm \<Rightarrow> wm res" where
  "client_close c s =
     (case c of None \<Rightarrow> fault NullPointer
      | Some a \<Rightarrow> ok (emit (XSendEvent (window (heap s a)) WMDeleteWindow) s))"


section \<open>Layout Operations\<close>

definition client_center :: "env \<Rightarrow> cptr \<Rightarrow> wm \<Rightarrow> wm res" where
  "client_center K c s =
     (case c of None \<Rightarrow> fault NullPointer
      | Some a \<Rightarrow>
         let cl = heap s a in
         (case monitor_of K s (c_ws cl) of Inl e \<Rightarrow> fault e
          | Inr m \<Rightarrow>
             client_move_absolute c
               (c_sub (c_add (mon_x m) (c_div (mon_width m) 2)) (c_div (geom_width cl) 2))
               (c_sub (c_add (mon_y m) (c_div (mon_height m) 2)) (c_div (geom_height cl) 2)) s))"

definition client_fullscreen :: "env \<Rightarrow> cptr \<Rightarrow> wm \<Rightarrow> wm res" where
  "client_fullscreen K c s =
     (case c of None \<Rightarrow> fault NullPointer
      | Some a \<Rightarrow>
         (case monitor_of K s (c_ws (heap s a)) of Inl e \<Rightarrow> fault e
          | Inr m \<Rightarrow>
             and_then (client_move_absolute c (mon_x m) (mon_y m) s) (\<lambda>s1.
             and_then (client_resize_absolute K c (mon_width m) (mon_height m) s1) (\<lambda>s2.
               let cl = heap s2 a;
                   s3 = (if \<not> fullscreen cl
                         then emit (XChangeProperty (window cl) NetWMState PropModeReplace
                                      [XAtom NetWMStateFullscreen]) s2
                         else emit (XChangeProperty (window cl) NetWMState PropModeReplace []) s2)
               in ok (store a ((heap s3 a)\<lparr>fullscreen := \<not> fullscreen (heap s3 a)\<rparr>) s3)))))"

definition client_monocle :: "env \<Rightarrow> cptr \<Rightarrow> wm \<Rightarrow> wm res" where
  "client_monocle K c s =
     (case c of None \<Rightarrow> fault NullPointer
      | Some a \<Rightarrow>
         (case monitor_of K s (c_ws (heap s a)) of Inl e \<Rightarrow> fault e
          | Inr m \<Rightarrow>
             and_then (client_move_absolute c (mon_x m) (c_add (mon_y m) (top_gap (conf s))) s) (\<lambda>s1.
             client_resize_absolute K c (mon_width m) (c_sub (mon_height m) (top_gap (conf s1))) s1)))"

definition client_snap_left :: "env \<Rightarrow> cptr \<Rightarrow> wm \<Rightarrow> wm res" where
  "client_snap_left K c s =
     (case c of None \<Rightarrow> fault NullPointer
      | Some a \<Rightarrow>
         (case monitor_of K s (c_ws (heap s a)) of Inl e \<Rightarrow> fault e
          | Inr m \<Rightarrow>
             and_then (client_move_absolute c (mon_x m) (c_add (mon_y m) (top_gap (conf s))) s) (\<lambda>s1.
             client_resize_absolute K c (c_div (mon_width m) 2)
               (c_sub (mon_height m) (top_gap (conf s1))) s1)))"

definition client_snap_right :: "env \<Rightarrow> cptr \<Rightarrow> wm \<Rightarrow> wm res" where
  "client_snap_right K c s =
     (case c of None \<Rightarrow> fault NullPointer
      | Some a \<Rightarrow>
         (case monitor_of K s (c_ws (heap s a)) of Inl e \<Rightarrow> fault e
          | Inr m \<Rightarrow>
             and_then (client_move_absolute c (c_add (mon_x m) (c_div (mon_width m) 2))
                         (c_add (mon_y m) (top_gap (conf s))) s) (\<lambda>s1.
             client_resize_absolute K c (c_div (mon_width m) 2)
               (c_sub (mon_height m) (top_gap (conf s1))) s1)))"

definition client_hide :: "cptr \<Rightarrow> wm \<Rightarrow> wm res" where
  "client_hide c s =
     (case c of None \<Rightarrow> fault NullPointer
      | Some a \<Rightarrow>
         if \<not> hidden (heap s a) then
           let s1 = store a ((heap s a)\<lparr>x_hide := geom_x (heap s a)\<rparr>) s in
           and_then (client_move_absolute c (c_add (display_width s1) (b_width (conf s1)))
                       (geom_y (heap s1 a)) s1) (\<lambda>s2.
           ok (store a ((heap s2 a)\<lparr>hidden := True\<rparr>) s2))
         else ok s)"

definition client_show :: "env \<Rightarrow> cptr \<Rightarrow> wm \<Rightarrow> wm res" where
  "client_show K c s =
     (case c of None \<Rightarrow> fault NullPointer
      | Some a \<Rightarrow>
         if hidden (heap s a) then
           and_then (client_move_absolute c (x_hide (heap s a)) (geom_y (heap s a)) s) (\<lambda>s1.
           and_then (client_raise c s1) (\<lambda>s2.
           client_refresh K c (store a ((heap s2 a)\<lparr>hidden := False\<rparr>) s2)))
         else ok s)"


section \<open>Client Registry\<close>

definition client_save :: "env \<Rightarrow> cptr \<Rightarrow> int \<Rightarrow> wm \<Rightarrow> wm res" where
  "client_save K c ws s =
     (case c of None \<Rightarrow> fault NullPointer
      | Some a \<Rightarrow>
         if \<not> in_ws K ws then fault OutOfBounds
         else
           let s1 = store a ((heap s a)\<lparr>next := c_list s ws\<rparr>) s;
               s2 = s1\<lparr>c_list := (c_list s1)(ws := c)\<rparr>;
               s3 = store a ((heap s2 a)\<lparr>f_next := f_list s2 ws\<rparr>) s2
           in ok (s3\<lparr>f_list := (f_list s3)(ws := c)\<rparr>))"

text \<open>The links \<open>tmp->next\<close> and \<open>tmp->f_next\<close> of every client in a state.\<close>

definition nexts :: "wm \<Rightarrow> nat \<Rightarrow> cptr" where
  "nexts s t = next (heap s t)"

definition f_nexts :: "wm \<Rightarrow> nat \<Rightarrow> cptr" where
  "f_nexts s t = f_next (heap s t)"

text \<open>The inner loop of \<open>update_c_list\<close> over one stacking list.\<close>

partial_function (option) update_c_list_from :: "cptr \<Rightarrow> wm \<Rightarrow> wm res" where
  "update_c_list_from tmp s =
     (case tmp of None \<Rightarrow> Some (Inr s)
      | Some t \<Rightarrow>
         update_c_list_from (next (heap s t))
           (emit (XChangeProperty (root s) NetClientList PropModeAppend
                    [XCardinal (geom_width (heap s t))]) s))"

fun update_c_list_loop :: "int list \<Rightarrow> wm \<Rightarrow> wm res" where
  "update_c_list_loop [] s = ok s"
| "update_c_list_loop (i # is) s =
     and_then (update_c_list_from (c_list s i) s) (update_c_list_loop is)"

definition update_c_list :: "env \<Rightarrow> wm \<Rightarrow> wm res" where
  "update_c_list K s =
     update_c_list_loop [0..WORKSPACE_NUMBER K - 1] (emit (XDeleteProperty (root s) NetClientList) s)"

text \<open>
  \<open>while (tmp != NULL && tmp->next != c) tmp = tmp->next;\<close> of \<open>client_delete\<close>,
  written once for both links: \<open>nx\<close> reads the link the loop follows.
\<close>

partial_function (option) delete_scan :: "(nat \<Rightarrow> cptr) \<Rightarrow> cptr \<Rightarrow> nat \<Rightarrow> cptr option" where
  "delete_scan nx tmp c =
     (case tmp of None \<Rightarrow> Some None
      | Some t \<Rightarrow> if nx t \<noteq> Some c then delete_scan nx (nx t) c else Some (Some t))"

text \<open>
  The two blocks of \<open>client_delete\<close>, under the comments \<open>Delete in the stack\<close> and
  \<open>Delete in the focus list\<close>, for the client at address \<open>a\<close>.
\<close>

definition delete_in_stack :: "nat \<Rightarrow> int \<Rightarrow> wm \<Rightarrow> wm res" where
  "delete_in_stack a ws s =
     (if c_list s ws = Some a then ok (s\<lparr>c_list := (c_list s)(ws := next (heap s a))\<rparr>)
      else (case delete_scan (nexts s) (c_list s ws) a of
              None \<Rightarrow> None
            | Some None \<Rightarrow> fault NullPointer
            | Some (Some t) \<Rightarrow>
                (case next (heap s t) of None \<Rightarrow> fault NullPointer
                 | Some n \<Rightarrow> ok (store t ((heap s t)\<lparr>next := next (heap s n)\<rparr>) s))))"

definition delete_in_focus_list :: "nat \<Rightarrow> int \<Rightarrow> wm \<Rightarrow> wm res" where
  "delete_in_focus_list a ws s =
     (if f_list s ws = Some a then ok (s\<lparr>f_list := (f_list s)(ws := f_next (heap s a))\<rparr>)
      else (case delete_scan (f_nexts s) (f_list s ws) a of
              None \<Rightarrow> None
            | Some None \<Rightarrow> fault NullPointer
            | Some (Some t) \<Rightarrow>
                (case f_next (heap s t) of None \<Rightarrow> fault NullPointer
                 | Some n \<Rightarrow> ok (store t ((heap s t)\<lparr>f_next := f_next (heap s n)\<rparr>) s))))"

definition client_delete :: "env \<Rightarrow> cptr \<Rightarrow> wm \<Rightarrow> wm res" where
  "client_delete K c s =
     (case c of None \<Rightarrow> fault NullPointer
      | Some a \<Rightarrow>
         let ws = c_ws (heap s a) in
         if ws = - 1 then ok s
         else if \<not> in_ws K ws then fault OutOfBounds
         else
           and_then (delete_in_stack a ws s) (\<lambda>s1.
           and_then (delete_in_focus_list a ws s1) (\<lambda>s2.
           update_c_list K (if c_list s2 ws = None then s2\<lparr>f_client := None\<rparr> else s2))))"

text \<open>
  \<open>for (tmp = c_list[ws]; tmp->next != NULL; tmp = tmp->next) if (tmp->next == c) break;\<close>
  of \<open>client_move_to_front\<close>.
\<close>

partial_function (option) front_scan :: "(nat \<Rightarrow> cptr) \<Rightarrow> nat \<Rightarrow> nat \<Rightarrow> nat option" where
  "front_scan nx tmp c =
     (case nx tmp of None \<Rightarrow> Some tmp
      | Some n \<Rightarrow> if n = c then Some tmp else front_scan nx n c)"

definition client_move_to_front :: "env \<Rightarrow> cptr \<Rightarrow> wm \<Rightarrow> wm res" where
  "client_move_to_front K c s =
     (case c of None \<Rightarrow> fault NullPointer
      | Some a \<Rightarrow>
         let ws = c_ws (heap s a) in
         if ws = - 1 then ok s
         else if \<not> in_ws K ws then fault OutOfBounds
         else if c_list s ws = c then ok s
         else (case c_list s ws of None \<Rightarrow> fault NullPointer
               | Some hd_c \<Rightarrow>
                  if next (heap s hd_c) = None then ok s
                  else (case front_scan (nexts s) hd_c a of None \<Rightarrow> None
                        | Some tmp \<Rightarrow>
                           (case next (heap s tmp) of None \<Rightarrow> fault NullPointer
                            | Some n \<Rightarrow>
                               let s1 = store tmp ((heap s tmp)\<lparr>next := next (heap s n)\<rparr>) s;
                                   s2 = store a ((heap s1 a)\<lparr>next := c_list s1 ws\<rparr>) s1
                               in ok (s2\<lparr>c_list := (c_list s2)(ws := c)\<rparr>)))))"


section \<open>Focus State Machine\<close>

definition client_manage_focus :: "env \<Rightarrow> cptr \<Rightarrow> wm \<Rightarrow> wm res" where
  "client_manage_focus K c s =
     and_then
       (if c \<noteq> None \<and> f_client s \<noteq> None then
          and_then (client_set_color (f_client s) (iu_color (conf s)) (bu_color (conf s)) s) (\<lambda>s1.
          manage_xsend_icccm K c WMTakeFocus s1)
        else ok s)
       (\<lambda>s2.
     (case c of None \<Rightarrow> ok s2
      | Some a \<Rightarrow>
         and_then (client_set_color c (if_color (conf s2)) (bf_color (conf s2)) s2) (\<lambda>s3.
         and_then (client_raise c s3) (\<lambda>s4.
         and_then (client_set_input c s4) (\<lambda>s5.
           let s6 = emit (XDeleteProperty (root s5) NetActiveWindow) s5;
               s7 = s6\<lparr>f_client := c\<rparr>;
               s8 = emit (XChangeProperty (root s7) NetActiveWindow PropModeReplace
                            [XWindow (window (heap s7 a))]) s7
           in and_then (client_move_to_front K c s8) (\<lambda>s9.
              manage_xsend_icccm K c WMTakeFocus s9))))))"

definition focus_next :: "env \<Rightarrow> cptr \<Rightarrow> wm \<Rightarrow> wm res" where
  "focus_next K c s =
     (case c of None \<Rightarrow> ok s
      | Some a \<Rightarrow>
         let ws = c_ws (heap s a) in
         if \<not> in_ws K ws then fault OutOfBounds
         else if f_list s ws = c \<and> f_next (heap s a) = None then client_manage_focus K (f_list s ws) s
         else
           let tmp = (if f_next (heap s a) = None then f_list s ws else f_next (heap s a))
           in client_manage_focus K tmp s)"

text \<open>
  The loop of \<open>client_cardinal_focus\<close>; it returns the local variable
  \<open>focus_next\<close>.  The locals \<open>focus_next\<close> and \<open>min\<close> are written
  \<open>focus_next'\<close> and \<open>min'\<close>.  The call
  \<open>euclidean_distance(c, tmp)\<close> reads both clients.
\<close>

partial_function (option) cardinal_scan ::
  "env \<Rightarrow> wm \<Rightarrow> cptr \<Rightarrow> direction option \<Rightarrow> cptr \<Rightarrow> cptr \<Rightarrow> int \<Rightarrow> cptr res" where
  "cardinal_scan K s c dir tmp focus_next' min' =
     (case tmp of None \<Rightarrow> Some (Inr focus_next')
      | Some t \<Rightarrow>
         (case c of None \<Rightarrow> Some (Inl NullPointer)
          | Some a \<Rightarrow>
             let dist = euclidean_distance K (heap s a) (heap s t);
                 hit = (case dir of
                          None \<Rightarrow> False
                        | Some EAST \<Rightarrow> geom_x (heap s t) > geom_x (heap s a) \<and> dist < min'
                        | Some SOUTH \<Rightarrow> geom_y (heap s t) > geom_y (heap s a) \<and> dist < min'
                        | Some WEST \<Rightarrow> geom_x (heap s t) < geom_x (heap s a) \<and> dist < min'
                        | Some NORTH \<Rightarrow> geom_y (heap s t) < geom_y (heap s a) \<and> dist < min')
             in if hit then cardinal_scan K s c dir (next (heap s t)) tmp dist
                else cardinal_scan K s c dir (next (heap s t)) focus_next' min'))"

definition client_cardinal_focus :: "env \<Rightarrow> cptr \<Rightarrow> direction option \<Rightarrow> wm \<Rightarrow> wm res" where
  "client_cardinal_focus K c dir s =
     (if \<not> in_ws K (curr_ws s) then fault OutOfBounds
      else and_then (cardinal_scan K s c dir (c_list s (curr_ws s)) None INT_MAX) (\<lambda>focus_next'.
        if focus_next' = None then ok s else client_manage_focus K focus_next' s))"


section \<open>Workspace/Monitor Mapper\<close>

fun safe_to_focus_loop :: "wm \<Rightarrow> int \<Rightarrow> int \<Rightarrow> int list \<Rightarrow> bool" where
  "safe_to_focus_loop s ws mon [] = True"
| "safe_to_focus_loop s ws mon (i # is) =
     (if i \<noteq> ws \<and> ws_m_list s i = mon
         \<and> (case c_list s i of None \<Rightarrow> False | Some t \<Rightarrow> hidden (heap s t) = False)
      then False
      else safe_to_focus_loop s ws mon is)"

definition safe_to_focus :: "env \<Rightarrow> int \<Rightarrow> wm \<Rightarrow> bool res" where
  "safe_to_focus K ws s =
     (if \<not> in_ws K ws then fault OutOfBounds
      else ok (safe_to_focus_loop s ws (ws_m_list s ws) [0..WORKSPACE_NUMBER K - 1]))"

definition client_send_to_ws :: "env \<Rightarrow> cptr \<Rightarrow> int \<Rightarrow> wm \<Rightarrow> wm res" where
  "client_send_to_ws K c ws s =
     and_then (client_delete K c s) (\<lambda>s1.
     (case c of None \<Rightarrow> fault NullPointer
      | Some a \<Rightarrow>
         let prev = c_ws (heap s1 a);
             s2 = store a ((heap s1 a)\<lparr>c_ws := ws\<rparr>) s1
         in and_then (client_save K c ws s2) (\<lambda>s3.
            and_then (client_hide c s3) (\<lambda>s4.
            if \<not> in_ws K prev then fault OutOfBounds
            else
              and_then (focus_next K (f_list s4 prev) s4) (\<lambda>s5.
              and_then (safe_to_focus K ws s5) (\<lambda>safe.
              if safe then client_show K c s5 else ok s5))))))"

text \<open>The two inner loops of \<open>switch_ws\<close> over one stacking list.\<close>

partial_function (option) hide_from :: "cptr \<Rightarrow> wm \<Rightarrow> wm res" where
  "hide_from tmp s =
     (case tmp of None \<Rightarrow> Some (Inr s)
      | Some t \<Rightarrow>
         (case client_hide tmp s of None \<Rightarrow> None
          | Some (Inl e) \<Rightarrow> Some (Inl e)
          | Some (Inr s1) \<Rightarrow> hide_from (next (heap s1 t)) s1))"

partial_function (option) show_from :: "env \<Rightarrow> cptr \<Rightarrow> wm \<Rightarrow> wm res" where
  "show_from K tmp s =
     (case tmp of None \<Rightarrow> Some (Inr s)
      | Some t \<Rightarrow>
         (case client_show K tmp s of None \<Rightarrow> None
          | Some (Inl e) \<Rightarrow> Some (Inl e)
          | Some (Inr s1) \<Rightarrow>
             let s2 = emit (XLowerWindow (window (heap s1 t))) s1;
                 s3 = emit (XLowerWindow (dec (heap s2 t))) s2
             in show_from K (next (heap s3 t)) s3))"

fun switch_ws_loop :: "env \<Rightarrow> int \<Rightarrow> int list \<Rightarrow> wm \<Rightarrow> wm res" where
  "switch_ws_loop K ws [] s = ok s"
| "switch_ws_loop K ws (i # is) s =
     (if \<not> in_ws K ws then fault OutOfBounds
      else
        and_then
          (if i \<noteq> ws \<and> ws_m_list s i = ws_m_list s ws then hide_from (c_list s i) s
           else if i = ws then show_from K (c_list s i) s
           else ok s)
          (switch_ws_loop K ws is))"

text \<open>
  After the loop the source reads \<open>m_list[ws_m_list[ws]].screen\<close> for a log message;
  the read is kept because it can be out of bounds.
\<close>

definition switch_ws :: "env \<Rightarrow> int \<Rightarrow> wm \<Rightarrow> wm res" where
  "switch_ws K ws s =
     and_then (switch_ws_loop K ws [0..WORKSPACE_NUMBER K - 1] s) (\<lambda>s1.
       let s2 = s1\<lparr>curr_ws := ws\<rparr> in
       (case monitor_of K s2 ws of Inl e \<Rightarrow> fault e
        | Inr m \<Rightarrow>
           and_then (client_manage_focus K (c_list s2 (curr_ws s2)) s2) (\<lambda>s3.
           ok (emit (XChangeProperty (root s3) NetCurrentDesktop PropModeReplace [XCardinal ws]) s3))))"


section \<open>Command Dispatcher\<close>

text \<open>
  A handler receives the array \<open>d\<close> of \<open>long\<close> arguments; assigning an element to
  an \<open>int\<close> truncates it.
\<close>

definition ipc_move_absolute :: "env \<Rightarrow> (nat \<Rightarrow> int) \<Rightarrow> wm \<Rightarrow> wm res" where
  "ipc_move_absolute K d s =
     (if f_client s = None then ok s
      else client_move_absolute (f_client s) (c_int (d 1)) (c_int (d 2)) s)"

definition ipc_move_relative :: "env \<Rightarrow> (nat \<Rightarrow> int) \<Rightarrow> wm \<Rightarrow> wm res" where
  "ipc_move_relative K d s =
     (if f_client s = None then ok s
      else client_move_relative K (f_client s) (c_int (d 1)) (c_int (d 2)) s)"

definition ipc_monocle :: "env \<Rightarrow> (nat \<Rightarrow> int) \<Rightarrow> wm \<Rightarrow> wm res" where
  "ipc_monocle K d s = (if f_client s = None then ok s else client_monocle K (f_client s) s)"

definition ipc_raise :: "env \<Rightarrow> (nat \<Rightarrow> int) \<Rightarrow> wm \<Rightarrow> wm res" where
  "ipc_raise K d s = (if f_client s = None then ok s else client_raise (f_client s) s)"

definition ipc_resize_absolute :: "env \<Rightarrow> (nat \<Rightarrow> int) \<Rightarrow> wm \<Rightarrow> wm res" where
  "ipc_resize_absolute K d s =
     (if f_client s = None then ok s
      else client_resize_absolute K (f_client s) (c_int (d 1)) (c_int (d 2)) s)"

definition ipc_resize_relative :: "env \<Rightarrow> (nat \<Rightarrow> int) \<Rightarrow> wm \<Rightarrow> wm res" where
  "ipc_resize_relative K d s =
     (if f_client s = None then ok s
      else client_resize_relative K (f_client s) (c_int (d 1)) (c_int (d 2)) s)"

definition ipc_window_close :: "env \<Rightarrow> (nat \<Rightarrow> int) \<Rightarrow> wm \<Rightarrow> wm res" where
  "ipc_window_close K d s = (if f_client s = None then ok s else client_close (f_client s) s)"

definition ipc_window_center :: "env \<Rightarrow> (nat \<Rightarrow> int) \<Rightarrow> wm \<Rightarrow> wm res" where
  "ipc_window_center K d s = client_center K (f_client s) s"

definition ipc_send_to_ws :: "env \<Rightarrow> (nat \<Rightarrow> int) \<Rightarrow> wm \<Rightarrow> wm res" where
  "ipc_send_to_ws K d s =
     (if f_client s = None then ok s
      else client_send_to_ws K (f_client s) (c_sub (c_int (d 1)) 1) s)"

definition ipc_fullscreen :: "env \<Rightarrow> (nat \<Rightarrow> int) \<Rightarrow> wm \<Rightarrow> wm res" where
  "ipc_fullscreen K d s = (if f_client s = None then ok s else client_fullscreen K (f_client s) s)"

definition ipc_snap_left :: "env \<Rightarrow> (nat \<Rightarrow> int) \<Rightarrow> wm \<Rightarrow> wm res" where
  "ipc_snap_left K d s = (if f_client s = None then ok s else client_snap_left K (f_client s) s)"

definition ipc_snap_right :: "env \<Rightarrow> (nat \<Rightarrow> int) \<Rightarrow> wm \<Rightarrow> wm res" where
  "ipc_snap_right K d s = (if f_client s = None then ok s else client_snap_right K (f_client s) s)"

definition ipc_cardinal_focus :: "env \<Rightarrow> (nat \<Rightarrow> int) \<Rightarrow> wm \<Rightarrow> wm res" where
  "ipc_cardinal_focus K d s = client_cardinal_focus K (f_client s) (direction_of K (c_int (d 1))) s"

definition ipc_cycle_focus :: "env \<Rightarrow> (nat \<Rightarrow> int) \<Rightarrow> wm \<Rightarrow> wm res" where
  "ipc_cycle_focus K d s = focus_next K (f_client s) s"

definition ipc_switch_ws :: "env \<Rightarrow> (nat \<Rightarrow> int) \<Rightarrow> wm \<Rightarrow> wm res" where
  "ipc_switch_ws K d s = switch_ws K (c_sub (c_int (d 1)) 1) s"


section \<open>Lists in the store\<close>

text \<open>
  \<open>chain nx p as\<close>: following the link \<open>nx\<close> from the pointer \<open>p\<close> visits exactly the
  addresses \<open>as\<close>, in this order, and then reaches \<open>NULL\<close>.
\<close>

primrec chain :: "(nat \<Rightarrow> cptr) \<Rightarrow> cptr \<Rightarrow> nat list \<Rightarrow> bool" where
  "chain nx p [] = (p = None)"
| "chain nx p (a # as) = (p = Some a \<and> chain nx (nx a) as)"

text \<open>
  The invariant of the Client Registry: \<open>L i\<close> is the stacking list and \<open>F i\<close> the focus
  list of workspace \<open>i\<close>; the two have the same members, and no client is in the lists of
  two workspaces.
\<close>

definition registry_inv :: "env \<Rightarrow> wm \<Rightarrow> (int \<Rightarrow> nat list) \<Rightarrow> (int \<Rightarrow> nat list) \<Rightarrow> bool" where
  "registry_inv K s L F =
     ((\<forall>i. in_ws K i \<longrightarrow>
          chain (nexts s) (c_list s i) (L i) \<and> chain (f_nexts s) (f_list s i) (F i)
          \<and> set (L i) = set (F i))
      \<and> (\<forall>i j. in_ws K i \<and> in_ws K j \<and> i \<noteq> j \<longrightarrow> set (L i) \<inter> set (L j) = {}))"

text \<open>The client at address \<open>a\<close> is in no stacking list.\<close>

definition unregistered :: "env \<Rightarrow> (int \<Rightarrow> nat list) \<Rightarrow> nat \<Rightarrow> bool" where
  "unregistered K L a = (\<forall>i. in_ws K i \<longrightarrow> a \<notin> set (L i))"

text \<open>What no registry operation changes.\<close>

definition statics ::
  "wm \<Rightarrow> monitor list \<times> config \<times> (int \<Rightarrow> int) \<times> int \<times> window \<times> (nat \<Rightarrow> int)" where
  "statics s = (m_list s, conf s, ws_m_list s, display_width s, root s, (\<lambda>u. c_ws (heap s u)))"


section \<open>Well-formed states\<close>

text \<open>
  What the operations on the geometry and the display requests leave unchanged: everything
  but the geometry, the hidden flags and the trace.
\<close>

definition skel ::
  "wm \<Rightarrow> (monitor list \<times> config \<times> (int \<Rightarrow> int) \<times> int \<times> window \<times> (nat \<Rightarrow> int))
        \<times> int \<times> cptr \<times> (int \<Rightarrow> cptr) \<times> (int \<Rightarrow> cptr) \<times> (nat \<Rightarrow> cptr) \<times> (nat \<Rightarrow> cptr)" where
  "skel s = (statics s, curr_ws s, f_client s, c_list s, f_list s, nexts s, f_nexts s)"

text \<open>With edge-lock enabled the client at \<open>a\<close> has a monitor.\<close>

definition mon_ok :: "env \<Rightarrow> wm \<Rightarrow> nat \<Rightarrow> bool" where
  "mon_ok K s a = (edge_lock (conf s) \<longrightarrow> (\<exists>m. monitor_of K s (c_ws (heap s a)) = Inr m))"

text \<open>
  A well-formed state: the registry invariant holds, every client in the lists of a
  workspace records that workspace, and every workspace is mapped to an existing monitor.
\<close>

definition wm_wf :: "env \<Rightarrow> wm \<Rightarrow> (int \<Rightarrow> nat list) \<Rightarrow> (int \<Rightarrow> nat list) \<Rightarrow> bool" where
  "wm_wf K s L F =
     (registry_inv K s L F
      \<and> (\<forall>i. in_ws K i \<longrightarrow>
            (\<forall>t\<in>set (L i). c_ws (heap s t) = i)
            \<and> 0 \<le> ws_m_list s i \<and> ws_m_list s i < int (length (m_list s))))"

text \<open>
  The focused client, if there is one, is in the stacking list of the workspace it records.
\<close>

definition focus_registered :: "env \<Rightarrow> wm \<Rightarrow> (int \<Rightarrow> nat list) \<Rightarrow> bool" where
  "focus_registered K s L =
     (case f_client s of None \<Rightarrow> True
      | Some a \<Rightarrow> in_ws K (c_ws (heap s a)) \<and> a \<in> set (L (c_ws (heap s a))))"


section \<open>Cardinal focus, as specified\<close>

text \<open>The candidate \<open>t\<close> is strictly on the requested side of \<open>c\<close>.\<close>

definition on_side :: "direction option \<Rightarrow> client \<Rightarrow> client \<Rightarrow> bool" where
  "on_side dir c t =
     (case dir of
        None \<Rightarrow> False
      | Some EAST \<Rightarrow> geom_x t > geom_x c
      | Some SOUTH \<Rightarrow> geom_y t > geom_y c
      | Some WEST \<Rightarrow> geom_x t < geom_x c
      | Some NORTH \<Rightarrow> geom_y t < geom_y c)"

text \<open>The first candidate, in list order, whose distance is the minimum over all candidates.\<close>

definition nearest_first :: "(nat \<Rightarrow> int) \<Rightarrow> nat list \<Rightarrow> cptr" where
  "nearest_first d cs = (if cs = [] then None else find (\<lambda>t. d t = Min (d ` set cs)) cs)"

text \<open>
  The distance from the client at \<open>a\<close> to every candidate among \<open>as\<close> is below
  \<open>INT_MAX\<close>, the value the loop starts from.
\<close>

definition candidates_below_INT_MAX ::
  "env \<Rightarrow> wm \<Rightarrow> nat \<Rightarrow> direction option \<Rightarrow> nat list \<Rightarrow> bool" where
  "candidates_below_INT_MAX K s a dir as =
     (\<forall>t\<in>set as. on_side dir (heap s a) (heap s t) \<longrightarrow>
        euclidean_distance K (heap s a) (heap s t) < INT_MAX)"

text \<open>The loop of \<open>client_cardinal_focus\<close> on the list of the clients it visits.\<close>

fun cardinal_pick :: "(nat \<Rightarrow> bool) \<Rightarrow> (nat \<Rightarrow> int) \<Rightarrow> nat list \<Rightarrow> cptr \<Rightarrow> int \<Rightarrow> cptr" where
  "cardinal_pick side d [] best m = best"
| "cardinal_pick side d (t # ts) best m =
     (if side t \<and> d t < m then cardinal_pick side d ts (Some t) (d t)
      else cardinal_pick side d ts best m)"


section \<open>Ranges without overflow\<close>

definition int_range :: "int \<Rightarrow> bool" where
  "int_range k = (- 2147483648 \<le> k \<and> k < 2147483648)"

text \<open>
  The sums and differences that \<open>client_move_relative\<close> computes with edge-lock enabled
  all have a value that an \<open>int\<close> can hold.
\<close>

definition move_in_range :: "client \<Rightarrow> monitor \<Rightarrow> config \<Rightarrow> int \<Rightarrow> int \<Rightarrow> bool" where
  "move_in_range cl m cf x y =
     (int_range (geom_x cl + geom_width cl) \<and> int_range (geom_x cl + geom_width cl + x)
      \<and> int_range (mon_width m + mon_x m) \<and> int_range (mon_width m + mon_x m - geom_width cl)
      \<and> int_range (geom_x cl + x)
      \<and> int_range (geom_y cl + geom_height cl) \<and> int_range (geom_y cl + geom_height cl + y)
      \<and> int_range (mon_height m + mon_y m) \<and> int_range (mon_height m + mon_y m - geom_height cl)
      \<and> int_range (geom_y cl + y) \<and> int_range (mon_y m + top_gap cf))"


section \<open>Example states\<close>

definition client0 :: client where
  "client0 = \<lparr>window = 0, c_ws = 0, geom_x = 0, geom_y = 0, geom_width = 0, geom_height = 0,
     dec = 0, decorated = False, hidden = False, x_hide = 0, fullscreen = False,
     next = None, f_next = None\<rparr>"

text \<open>Two workspaces, a minimum dimension of 5 and the squared distance of the origins.\<close>

definition K0 :: env where
  "K0 = \<lparr>WORKSPACE_NUMBER = 2, MINIMUM_DIM = 5,
     euclidean_distance = (\<lambda>a b. (geom_x a - geom_x b) * (geom_x a - geom_x b)
                                + (geom_y a - geom_y b) * (geom_y a - geom_y b)),
     direction_of = (\<lambda>i. if i = 0 then Some EAST else if i = 1 then Some SOUTH
                         else if i = 2 then Some WEST else if i = 3 then Some NORTH else None),
     XGetWMProtocols = (\<lambda>w. None)\<rparr>"

text \<open>No client; one monitor of 100 by 100 at the origin that both workspaces are mapped to.\<close>

definition wm0 :: wm where
  "wm0 = \<lparr>f_client = None, c_list = (\<lambda>i. None), f_list = (\<lambda>i. None),
     m_list = [\<lparr>mon_x = 0, mon_y = 0, mon_width = 100, mon_height = 100, mon_screen = 0\<rparr>],
     conf = \<lparr>b_width = 2, i_width = 1, t_height = 10, top_gap = 30, bf_color = 1, bu_color = 2,
              if_color = 3, iu_color = 4, edge_lock = True\<rparr>,
     ws_m_list = (\<lambda>i. 0), curr_ws = 0, display_width = 100, root = 0,
     heap = (\<lambda>a. client0), xlog = []\<rparr>"

text \<open>One decorated client at address 1, focused, on workspace 0.\<close>

definition wm1 :: wm where
  "wm1 = wm0\<lparr>f_client := Some 1, c_list := (\<lambda>i. None)(0 := Some 1),
     f_list := (\<lambda>i. None)(0 := Some 1),
     heap := (\<lambda>a. client0)(1 := client0\<lparr>window := 11, geom_x := 10, geom_y := 40,
               geom_width := 50, geom_height := 50, dec := 12, decorated := True\<rparr>)\<rparr>"


text \<open>As \<open>wm1\<close>, with the client at x = 0 and twice as wide as the monitor.\<close>

definition wm_wide :: wm where
  "wm_wide = wm1\<lparr>heap := (heap wm1)(1 := (heap wm1 1)\<lparr>geom_x := 0, geom_width := 200\<rparr>)\<rparr>"

definition wm_wide_moved :: wm where
  "wm_wide_moved = wm_wide\<lparr>heap := (heap wm_wide)(1 := (heap wm_wide 1)\<lparr>geom_x := - 100, geom_y := 0\<rparr>),
     xlog := [XMoveWindow 11 (- 97) 13, XMoveWindow 12 (- 100) 0]\<rparr>"

text \<open>
  Two clients on workspace 0: the stacking list is 1, 2 and the focus list is 2, 1.
  Client 1, the head of the stacking list, is hidden; client 2 is visible and focused.
\<close>

definition wm2 :: wm where
  "wm2 = wm0\<lparr>f_client := Some 2, c_list := (\<lambda>i. None)(0 := Some 1),
     f_list := (\<lambda>i. None)(0 := Some 2),
     heap := (\<lambda>a. client0)
       (1 := client0\<lparr>window := 11, geom_x := 110, geom_y := 40, geom_width := 50,
                     geom_height := 50, dec := 12, decorated := True, hidden := True,
                     x_hide := 10, next := Some 2\<rparr>,
        2 := client0\<lparr>window := 21, geom_x := 60, geom_y := 40, geom_width := 30,
                     geom_height := 30, dec := 22, decorated := True, f_next := Some 1\<rparr>)\<rparr>"


text \<open>As \<open>wm2\<close>, with no client focused.\<close>

definition wm2_unfocused :: wm where
  "wm2_unfocused = wm2\<lparr>f_client := None\<rparr>"

text \<open>The lists of \<open>wm2\<close>.\<close>

definition L2 :: "int \<Rightarrow> nat list" where
  "L2 = (\<lambda>i. [])(0 := [1, 2])"

definition F2 :: "int \<Rightarrow> nat list" where
  "F2 = (\<lambda>i. [])(0 := [2, 1])"

text \<open>
  Three clients on workspace 0 with the stacking list 1, 2, 3.  Client 1 is focused; clients
  2 and 3 lie at the same place east of it, and client 2 is hidden.
\<close>

definition wm3 :: wm where
  "wm3 = wm0\<lparr>f_client := Some 1, c_list := (\<lambda>i. None)(0 := Some 1),
     f_list := (\<lambda>i. None)(0 := Some 3),
     heap := (\<lambda>a. client0)
       (1 := client0\<lparr>window := 11, geom_x := 10, geom_y := 40, geom_width := 20,
                     geom_height := 20, next := Some 2\<rparr>,
        2 := client0\<lparr>window := 21, geom_x := 60, geom_y := 40, geom_width := 20,
                     geom_height := 20, hidden := True, x_hide := 60, next := Some 3,
                     f_next := Some 1\<rparr>,
        3 := client0\<lparr>window := 31, geom_x := 60, geom_y := 40, geom_width := 20,
                     geom_height := 20, f_next := Some 2\<rparr>)\<rparr>"

text \<open>The lists of \<open>wm3\<close>.\<close>

definition L3 :: "int \<Rightarrow> nat list" where
  "L3 = (\<lambda>i. [])(0 := [1, 2, 3])"

definition F3 :: "int \<Rightarrow> nat list" where
  "F3 = (\<lambda>i. [])(0 := [3, 2, 1])"

text \<open>\<open>wm1\<close> after the switch to the empty workspace 1.\<close>

definition wm1_switched :: wm where
  "wm1_switched = wm1\<lparr>curr_ws := 1,
     heap := (heap wm1)(1 := (heap wm1 1)\<lparr>geom_x := 102, x_hide := 10, hidden := True\<rparr>),
     xlog := [XMoveWindow 11 105 53, XMoveWindow 12 102 40,
              XChangeProperty 0 NetCurrentDesktop PropModeReplace [XCardinal 1]]\<rparr>"

text \<open>\<open>wm2\<close> after the deletion of client 2.\<close>

definition wm2_deleted :: wm where
  "wm2_deleted = wm2\<lparr>f_list := (f_list wm2)(0 := Some 1),
     heap := (heap wm2)(1 := (heap wm2 1)\<lparr>next := None\<rparr>),
     xlog := [XDeleteProperty 0 NetClientList,
              XChangeProperty 0 NetClientList PropModeAppend [XCardinal 50]]\<rparr>"


section \<open>Auxiliary lemmas\<close>

lemma and_then_ok [simp]: "and_then (ok v) f = f v"
  by (simp add: and_then_def ok_def)

lemma and_then_fault [simp]: "and_then (fault e) f = fault e"
  by (simp add: and_then_def fault_def)

lemma and_then_None [simp]: "and_then None f = None"
  by (simp add: and_then_def)

lemma ok_inject [simp]: "(ok v = ok w) = (v = w)"
  by (simp add: ok_def)

lemma ok_fault_distinct [simp]:
  "ok v \<noteq> fault e" "fault e \<noteq> ok v" "ok v \<noteq> None" "fault e \<noteq> None"
  "None \<noteq> ok v" "None \<noteq> fault e"
  by (simp_all add: ok_def fault_def)

lemma MAX_int_max: "MAX_int a b = max a b"
  by (simp add: MAX_int_def max_def)


lemma c_int_id: "int_range k \<Longrightarrow> c_int k = k"
  unfolding c_int_def int_range_def by (rule signed_take_bit_int_eq_self) simp_all

lemma c_add_id: "int_range (a + b) \<Longrightarrow> c_add a b = a + b"
  by (simp add: c_add_def c_int_id)

lemma c_sub_id: "int_range (a - b) \<Longrightarrow> c_sub a b = a - b"
  by (simp add: c_sub_def c_int_id)

text \<open>The two absolute operations as one state update each.\<close>

lemma client_move_absolute_eq:
  "client_move_absolute (Some a) x y s =
     ok (s\<lparr>heap := (heap s)(a := (heap s a)\<lparr>geom_x := x, geom_y := y\<rparr>),
            xlog := xlog s @
              (if decorated (heap s a)
               then [XMoveWindow (window (heap s a))
                       (c_add (c_add x (i_width (conf s))) (b_width (conf s)))
                       (c_add (c_add (c_add y (i_width (conf s))) (b_width (conf s)))
                          (t_height (conf s))),
                     XMoveWindow (dec (heap s a)) x y]
               else [XMoveWindow (window (heap s a)) x y])\<rparr>)"
  by (simp add: client_move_absolute_def Let_def emit_def store_def)

lemma client_resize_absolute_eq:
  "client_resize_absolute K (Some a) w h s =
     ok (s\<lparr>heap := (heap s)(a := (heap s a)\<lparr>geom_width := max w (MINIMUM_DIM K),
                                             geom_height := max h (MINIMUM_DIM K)\<rparr>),
            xlog := xlog s @
              (if decorated (heap s a)
               then [XResizeWindow (window (heap s a))
                       (max (c_sub (c_sub w (c_mul 2 (i_width (conf s)))) (c_mul 2 (b_width (conf s))))
                          (MINIMUM_DIM K))
                       (max (c_sub (c_sub (c_sub h (c_mul 2 (i_width (conf s))))
                                      (c_mul 2 (b_width (conf s)))) (t_height (conf s)))
                          (MINIMUM_DIM K)),
                     XResizeWindow (dec (heap s a))
                       (max (c_sub w (c_mul 2 (b_width (conf s)))) (MINIMUM_DIM K))
                       (max (c_sub h (c_mul 2 (b_width (conf s)))) (MINIMUM_DIM K))]
               else [XResizeWindow (window (heap s a)) (max w (MINIMUM_DIM K))
                       (max h (MINIMUM_DIM K))])\<rparr>)"
  by (simp add: client_resize_absolute_def Let_def emit_def store_def MAX_int_max)

lemma safe_to_focus_loop_eq:
  "safe_to_focus_loop s ws mon is =
     (\<not> (\<exists>i\<in>set is. i \<noteq> ws \<and> ws_m_list s i = mon
                      \<and> (\<exists>t. c_list s i = Some t \<and> \<not> hidden (heap s t))))"
  by (induction "is") (auto split: option.splits)


lemma Some_Inr_ok [simp]: "Some (Inr v) = ok v"
  by (simp add: ok_def)
lemma Some_Inl_fault [simp]: "Some (Inl e) = fault e"
  by (simp add: fault_def)

lemma store_simps [simp]:
  "heap (store t cl s) = (heap s)(t := cl)"
  "c_list (store t cl s) = c_list s"
  "f_list (store t cl s) = f_list s"
  "f_client (store t cl s) = f_client s"
  "m_list (store t cl s) = m_list s"
  "conf (store t cl s) = conf s"
  "ws_m_list (store t cl s) = ws_m_list s"
  "curr_ws (store t cl s) = curr_ws s"
  "display_width (store t cl s) = display_width s"
  "root (store t cl s) = root s"
  "xlog (store t cl s) = xlog s"
  by (simp_all add: store_def)

lemma emit_simps [simp]:
  "heap (emit x s) = heap s"
  "c_list (emit x s) = c_list s"
  "f_list (emit x s) = f_list s"
  "f_client (emit x s) = f_client s"
  "m_list (emit x s) = m_list s"
  "conf (emit x s) = conf s"
  "ws_m_list (emit x s) = ws_m_list s"
  "curr_ws (emit x s) = curr_ws s"
  "display_width (emit x s) = display_width s"
  "root (emit x s) = root s"
  "xlog (emit x s) = xlog s @ [x]"
  by (simp_all add: emit_def)

lemma nexts_simps [simp]:
  "nexts (store t cl s) = (nexts s)(t := next cl)"
  "nexts (emit x s) = nexts s"
  "nexts (s\<lparr>c_list := cl'\<rparr>) = nexts s"
  "nexts (s\<lparr>f_list := fl'\<rparr>) = nexts s"
  "nexts (s\<lparr>f_client := fc\<rparr>) = nexts s"
  "nexts (s\<lparr>curr_ws := w\<rparr>) = nexts s"
  "nexts (s\<lparr>xlog := l\<rparr>) = nexts s"
  by (auto simp add: nexts_def fun_eq_iff)

lemma f_nexts_simps [simp]:
  "f_nexts (store t cl s) = (f_nexts s)(t := f_next cl)"
  "f_nexts (emit x s) = f_nexts s"
  "f_nexts (s\<lparr>c_list := cl'\<rparr>) = f_nexts s"
  "f_nexts (s\<lparr>f_list := fl'\<rparr>) = f_nexts s"
  "f_nexts (s\<lparr>f_client := fc\<rparr>) = f_nexts s"
  "f_nexts (s\<lparr>curr_ws := w\<rparr>) = f_nexts s"
  "f_nexts (s\<lparr>xlog := l\<rparr>) = f_nexts s"
  by (auto simp add: f_nexts_def fun_eq_iff)

lemma statics_simps [simp]:
  "c_ws cl = c_ws (heap s t) \<Longrightarrow> statics (store t cl s) = statics s"
  "statics (emit x s) = statics s"
  "statics (s\<lparr>c_list := cl'\<rparr>) = statics s"
  "statics (s\<lparr>f_list := fl'\<rparr>) = statics s"
  "statics (s\<lparr>f_client := fc\<rparr>) = statics s"
  "statics (s\<lparr>curr_ws := w\<rparr>) = statics s"
  "statics (s\<lparr>xlog := l\<rparr>) = statics s"
  by (auto simp add: statics_def fun_eq_iff)

lemma chain_unique: "chain nx p as \<Longrightarrow> chain nx p bs \<Longrightarrow> as = bs"
proof (induction as arbitrary: p bs)
  case Nil
  then show ?case by (cases bs) auto
next
  case (Cons a as)
  then show ?case by (cases bs) auto
qed

lemma chain_suffix: "chain nx p (xs @ y # ys) \<Longrightarrow> chain nx (Some y) (y # ys)"
  by (induction xs arbitrary: p) auto

lemma chain_head_notin:
  assumes c: "chain nx (nx a) as"
  shows "a \<notin> set as"
proof
  assume "a \<in> set as"
  then obtain xs ys where split: "as = xs @ a # ys"
    by (auto simp: in_set_conv_decomp)
  with c have "chain nx (Some a) (a # ys)"
    by (auto dest: chain_suffix)
  moreover from c have "chain nx (Some a) (a # as)"
    by simp
  ultimately have "a # ys = a # as"
    by (rule chain_unique)
  with split show False
    by simp
qed

lemma chain_distinct: "chain nx p as \<Longrightarrow> distinct as"
  by (induction as arbitrary: p) (auto dest: chain_head_notin)

lemma chain_upd [simp]: "a \<notin> set as \<Longrightarrow> chain (nx(a := v)) p as = chain nx p as"
  by (induction as arbitrary: p) auto

lemma chain_unlink:
  assumes "chain nx p (xs @ t # c # ys)"
  shows "chain (nx(t := nx c)) p (xs @ t # ys)"
proof -
  from assms have "distinct (xs @ t # c # ys)"
    by (rule chain_distinct)
  with assms show ?thesis
    by (induction xs arbitrary: p) auto
qed

lemma delete_scan_found:
  assumes "chain nx p (xs @ t # c # ys)"
  shows "delete_scan nx p c = Some (Some t)"
proof -
  from assms have "distinct (xs @ t # c # ys)"
    by (rule chain_distinct)
  with assms show ?thesis
  proof (induction xs arbitrary: p)
    case Nil
    then show ?case
      by (subst delete_scan.simps) simp
  next
    case (Cons x xs)
    then have "nx x \<noteq> Some c"
      by (cases xs) auto
    with Cons show ?case
      by (subst delete_scan.simps) simp
  qed
qed

lemma front_scan_found:
  assumes "chain nx (Some u) (xs @ t # c # ys)"
  shows "front_scan nx u c = Some t"
proof -
  from assms have "distinct (xs @ t # c # ys)"
    by (rule chain_distinct)
  with assms show ?thesis
  proof (induction xs arbitrary: u)
    case Nil
    then show ?case
      by (subst front_scan.simps) simp
  next
    case (Cons x xs)
    then obtain v where v: "nx x = Some v" "v \<noteq> c" "chain nx (Some v) (xs @ t # c # ys)"
      by (cases xs) auto
    with Cons have "front_scan nx v c = Some t"
      by simp
    with v Cons.prems show ?case
      by (subst front_scan.simps) simp
  qed
qed

lemma update_c_list_from_ok:
  "chain (nexts s) p as \<Longrightarrow> \<exists>l. update_c_list_from p s = ok (s\<lparr>xlog := l\<rparr>)"
proof (induction as arbitrary: p s)
  case Nil
  then show ?case
    by (subst update_c_list_from.simps) (auto intro: exI [of _ "xlog s"])
next
  case (Cons t as)
  let ?s1 = "emit (XChangeProperty (root s) NetClientList PropModeAppend
                    [XCardinal (geom_width (heap s t))]) s"
  have e: "next (heap s t) = nexts s t"
    by (simp add: nexts_def)
  from Cons.prems have "chain (nexts ?s1) (next (heap s t)) as"
    unfolding e by simp
  from Cons.IH [OF this] obtain l where "update_c_list_from (next (heap s t)) ?s1 = ok (?s1\<lparr>xlog := l\<rparr>)"
    by blast
  with Cons.prems show ?case
    by (subst update_c_list_from.simps) (auto simp: emit_def)
qed

lemma update_c_list_loop_ok:
  "\<forall>i\<in>set is. \<exists>as. chain (nexts s) (c_list s i) as \<Longrightarrow>
   \<exists>l. update_c_list_loop is s = ok (s\<lparr>xlog := l\<rparr>)"
proof (induction "is" arbitrary: s)
  case Nil
  then show ?case
    by (auto intro: exI [of _ "xlog s"])
next
  case (Cons i "is")
  then obtain as where "chain (nexts s) (c_list s i) as"
    by auto
  then obtain l where l: "update_c_list_from (c_list s i) s = ok (s\<lparr>xlog := l\<rparr>)"
    by (blast dest: update_c_list_from_ok)
  from Cons.prems have "\<forall>i\<in>set is. \<exists>as. chain (nexts (s\<lparr>xlog := l\<rparr>)) (c_list (s\<lparr>xlog := l\<rparr>) i) as"
    by simp
  from Cons.IH [OF this] l show ?case
    by auto
qed

lemma update_c_list_ok:
  "\<forall>i. in_ws K i \<longrightarrow> (\<exists>as. chain (nexts s) (c_list s i) as) \<Longrightarrow>
   \<exists>l. update_c_list K s = ok (s\<lparr>xlog := l\<rparr>)"
proof -
  assume a: "\<forall>i. in_ws K i \<longrightarrow> (\<exists>as. chain (nexts s) (c_list s i) as)"
  let ?s1 = "emit (XDeleteProperty (root s) NetClientList) s"
  from a have "\<forall>i\<in>set [0..WORKSPACE_NUMBER K - 1]. \<exists>as. chain (nexts ?s1) (c_list ?s1 i) as"
    by (auto simp: in_ws_def)
  from update_c_list_loop_ok [OF this] show ?thesis
    by (auto simp: update_c_list_def emit_def)
qed

lemma nexts_upd_same [simp]: "(nexts s)(t := next (heap s t)) = nexts s"
  by (auto simp add: nexts_def fun_eq_iff)
lemma f_nexts_upd_same [simp]: "(f_nexts s)(t := f_next (heap s t)) = f_nexts s"
  by (auto simp add: f_nexts_def fun_eq_iff)

lemma chain_remove:
  assumes c: "chain nx p as" and mem: "a \<in> set as"
  shows "(p = Some a \<and> chain nx (nx a) (remove1 a as))
       \<or> (p \<noteq> Some a \<and> (\<exists>t. delete_scan nx p a = Some (Some t) \<and> nx t = Some a
              \<and> t \<in> set as \<and> chain (nx(t := nx a)) p (remove1 a as)))"
proof -
  from mem obtain xs ys where split: "as = xs @ a # ys" "a \<notin> set xs"
    by (auto dest: split_list_first)
  show ?thesis
  proof (cases xs rule: rev_cases)
    case Nil
    with c split show ?thesis by simp
  next
    case (snoc xs' t)
    with c split have c': "chain nx p (xs' @ t # a # ys)" and nin: "a \<notin> set (xs' @ [t])"
      by simp_all
    from c' have "chain nx (Some t) (t # a # ys)"
      by (rule chain_suffix)
    then have nt: "nx t = Some a" by simp
    have rm: "remove1 a as = xs' @ t # ys"
      using split snoc by (simp add: remove1_append)
    from c' nin have "p \<noteq> Some a"
      by (cases xs') auto
    moreover from c' have "delete_scan nx p a = Some (Some t)"
      by (rule delete_scan_found)
    moreover from c' have "chain (nx(t := nx a)) p (xs' @ t # ys)"
      by (rule chain_unlink)
    ultimately show ?thesis
      using nt rm split snoc by auto
  qed
qed

lemma stack_unlink:
  assumes c: "chain (nexts s) (c_list s w) as" and mem: "a \<in> set as"
  shows "\<exists>s1. delete_in_stack a w s = ok s1
     \<and> chain (nexts s1) (c_list s1 w) (remove1 a as)
     \<and> (\<forall>bs p. set bs \<inter> set as = {} \<longrightarrow> chain (nexts s1) p bs = chain (nexts s) p bs)
     \<and> (\<forall>i. i \<noteq> w \<longrightarrow> c_list s1 i = c_list s i)
     \<and> c_list s1 w = (if c_list s w = Some a then nexts s a else c_list s w)
     \<and> f_nexts s1 = f_nexts s \<and> f_list s1 = f_list s \<and> statics s1 = statics s
     \<and> f_client s1 = f_client s \<and> curr_ws s1 = curr_ws s"
proof -
  from chain_remove [OF c mem] show ?thesis
  proof (elim disjE conjE exE)
    assume "c_list s w = Some a" "chain (nexts s) (nexts s a) (remove1 a as)"
    then show ?thesis
      by (auto simp add: nexts_def delete_in_stack_def)
  next
    fix t
    assume h: "c_list s w \<noteq> Some a" "delete_scan (nexts s) (c_list s w) a = Some (Some t)"
      "nexts s t = Some a" "t \<in> set as" "chain ((nexts s)(t := nexts s a)) (c_list s w) (remove1 a as)"
    then have n: "next (heap s t) = Some a" "next (heap s a) = nexts s a"
      by (simp_all add: nexts_def)
    have fr: "\<And>bs p v. set bs \<inter> set as = {} \<Longrightarrow>
                chain ((nexts s)(t := v)) p bs = chain (nexts s) p bs"
      using h(4) by (intro chain_upd) auto
    from h n fr show ?thesis
      by (simp add: delete_in_stack_def delete_in_focus_list_def)
  qed
qed

lemma focus_unlink:
  assumes c: "chain (f_nexts s) (f_list s w) as" and mem: "a \<in> set as"
  shows "\<exists>s1. delete_in_focus_list a w s = ok s1
     \<and> chain (f_nexts s1) (f_list s1 w) (remove1 a as)
     \<and> (\<forall>bs p. set bs \<inter> set as = {} \<longrightarrow> chain (f_nexts s1) p bs = chain (f_nexts s) p bs)
     \<and> (\<forall>i. i \<noteq> w \<longrightarrow> f_list s1 i = f_list s i)
     \<and> nexts s1 = nexts s \<and> c_list s1 = c_list s \<and> statics s1 = statics s
     \<and> f_client s1 = f_client s \<and> curr_ws s1 = curr_ws s"
proof -
  from chain_remove [OF c mem] show ?thesis
  proof (elim disjE conjE exE)
    assume "f_list s w = Some a" "chain (f_nexts s) (f_nexts s a) (remove1 a as)"
    then show ?thesis
      by (auto simp add: f_nexts_def delete_in_focus_list_def)
  next
    fix t
    assume h: "f_list s w \<noteq> Some a" "delete_scan (f_nexts s) (f_list s w) a = Some (Some t)"
      "f_nexts s t = Some a" "t \<in> set as" "chain ((f_nexts s)(t := f_nexts s a)) (f_list s w) (remove1 a as)"
    then have n: "f_next (heap s t) = Some a" "f_next (heap s a) = f_nexts s a"
      by (simp_all add: f_nexts_def)
    have fr: "\<And>bs p v. set bs \<inter> set as = {} \<Longrightarrow>
                chain ((f_nexts s)(t := v)) p bs = chain (f_nexts s) p bs"
      using h(4) by (intro chain_upd) auto
    from h n fr show ?thesis
      by (simp add: delete_in_stack_def delete_in_focus_list_def)
  qed
qed


lemma registry_invD:
  "registry_inv K s L F \<Longrightarrow> in_ws K i \<Longrightarrow>
     chain (nexts s) (c_list s i) (L i) \<and> chain (f_nexts s) (f_list s i) (F i) \<and> set (L i) = set (F i)"
  "registry_inv K s L F \<Longrightarrow> in_ws K i \<Longrightarrow> in_ws K j \<Longrightarrow> i \<noteq> j \<Longrightarrow> set (L i) \<inter> set (L j) = {}"
  unfolding registry_inv_def by blast+

lemma registry_inv_cong:
  "nexts s' = nexts s \<Longrightarrow> f_nexts s' = f_nexts s \<Longrightarrow> c_list s' = c_list s \<Longrightarrow>
   f_list s' = f_list s \<Longrightarrow> registry_inv K s' L F = registry_inv K s L F"
  by (simp add: registry_inv_def)

lemma client_delete_effect:
  assumes inv: "registry_inv K s L F"
    and w: "c_ws (heap s a) = w" "in_ws K w"
    and mem: "a \<in> set (L w)"
  shows "\<exists>s'. client_delete K (Some a) s = ok s'
     \<and> registry_inv K s' (L(w := remove1 a (L w))) (F(w := remove1 a (F w)))
     \<and> statics s' = statics s
     \<and> f_client s' = (if L w = [a] then None else f_client s)
     \<and> c_list s' w = (if c_list s w = Some a then nexts s a else c_list s w)
     \<and> curr_ws s' = curr_ws s"
proof -
  from registry_invD(1) [OF inv w(2)]
  have cL: "chain (nexts s) (c_list s w) (L w)" and cF: "chain (f_nexts s) (f_list s w) (F w)"
    and LF: "set (L w) = set (F w)"
    by simp_all
  from stack_unlink [OF cL mem] obtain s1 where s1:
    "delete_in_stack a w s = ok s1"
    "chain (nexts s1) (c_list s1 w) (remove1 a (L w))"
    "\<And>bs p. set bs \<inter> set (L w) = {} \<Longrightarrow> chain (nexts s1) p bs = chain (nexts s) p bs"
    "\<And>i. i \<noteq> w \<Longrightarrow> c_list s1 i = c_list s i"
    "c_list s1 w = (if c_list s w = Some a then nexts s a else c_list s w)"
    "f_nexts s1 = f_nexts s" "f_list s1 = f_list s" "statics s1 = statics s"
    "f_client s1 = f_client s" "curr_ws s1 = curr_ws s"
    by blast
  from cF s1 have cF1: "chain (f_nexts s1) (f_list s1 w) (F w)"
    by simp
  from mem LF have memF: "a \<in> set (F w)"
    by simp
  from focus_unlink [OF cF1 memF] obtain s2 where s2:
    "delete_in_focus_list a w s1 = ok s2"
    "chain (f_nexts s2) (f_list s2 w) (remove1 a (F w))"
    "\<And>bs p. set bs \<inter> set (F w) = {} \<Longrightarrow> chain (f_nexts s2) p bs = chain (f_nexts s1) p bs"
    "\<And>i. i \<noteq> w \<Longrightarrow> f_list s2 i = f_list s1 i"
    "nexts s2 = nexts s1" "c_list s2 = c_list s1" "statics s2 = statics s1"
    "f_client s2 = f_client s1" "curr_ws s2 = curr_ws s1"
    by blast
  let ?s3 = "if c_list s2 w = None then s2\<lparr>f_client := None\<rparr> else s2"
  let ?L = "L(w := remove1 a (L w))" and ?F = "F(w := remove1 a (F w))"
  from cL have dL: "distinct (L w)"
    by (rule chain_distinct)
  from cF have dF: "distinct (F w)"
    by (rule chain_distinct)
  have others: "chain (nexts s1) (c_list s1 i) (L i) \<and> chain (f_nexts s2) (f_list s2 i) (F i)"
    if "in_ws K i" "i \<noteq> w" for i
  proof -
    from registry_invD(2) [OF inv that(1) w(2) that(2)] have dj: "set (L i) \<inter> set (L w) = {}" .
    from registry_invD(1) [OF inv that(1)] LF have "set (F i) \<inter> set (F w) = {}"
      using dj by simp
    with dj s1 s2 that registry_invD(1) [OF inv that(1)] show ?thesis
      by simp
  qed
  have inv3: "registry_inv K ?s3 ?L ?F"
    unfolding registry_inv_def
  proof (intro conjI allI impI)
    fix i assume i: "in_ws K i"
    show "chain (nexts ?s3) (c_list ?s3 i) (?L i)"
      using s1 s2 others [OF i] by (cases "i = w") auto
    show "chain (f_nexts ?s3) (f_list ?s3 i) (?F i)"
      using s1 s2 others [OF i] by (cases "i = w") auto
    show "set (?L i) = set (?F i)"
      using registry_invD(1) [OF inv i] dL dF LF by (auto simp add: set_remove1_eq)
  next
    fix i j assume "in_ws K i \<and> in_ws K j \<and> i \<noteq> j"
    then show "set (?L i) \<inter> set (?L j) = {}"
      using registry_invD(2) [OF inv, of i j] dL
      by (auto simp add: set_remove1_eq)
  qed
  then have "\<forall>i. in_ws K i \<longrightarrow> (\<exists>as. chain (nexts ?s3) (c_list ?s3 i) as)"
    unfolding registry_inv_def by blast
  from update_c_list_ok [OF this] obtain l where l: "update_c_list K ?s3 = ok (?s3\<lparr>xlog := l\<rparr>)"
    by blast
  from w have run: "client_delete K (Some a) s = ok (?s3\<lparr>xlog := l\<rparr>)"
    using s1(1) s2(1) l by (simp add: client_delete_def in_ws_def)
  have empty: "(c_list s2 w = None) = (L w = [a])"
  proof -
    from s1(2) s2 have "(c_list s2 w = None) = (remove1 a (L w) = [])"
      by (cases "remove1 a (L w)") auto
    also have "\<dots> = (L w = [a])"
      using mem by (cases "L w") (auto split: if_splits)
    finally show ?thesis .
  qed
  have "registry_inv K (?s3\<lparr>xlog := l\<rparr>) ?L ?F"
    using inv3 by (simp add: registry_inv_cong [of "?s3\<lparr>xlog := l\<rparr>" ?s3])
  moreover have "statics (?s3\<lparr>xlog := l\<rparr>) = statics s"
    using s1 s2 by simp
  moreover have "f_client (?s3\<lparr>xlog := l\<rparr>) = (if L w = [a] then None else f_client s)"
    using empty s1 s2 by simp
  moreover have "c_list (?s3\<lparr>xlog := l\<rparr>) w = (if c_list s w = Some a then nexts s a else c_list s w)"
    using s1 s2 by simp
  moreover have "curr_ws (?s3\<lparr>xlog := l\<rparr>) = curr_ws s"
    using s1 s2 by simp
  ultimately show ?thesis
    using run by blast
qed

lemma client_save_effect:
  assumes inv: "registry_inv K s L F"
    and ws: "in_ws K ws"
    and fresh: "\<forall>i. in_ws K i \<longrightarrow> a \<notin> set (L i)"
  shows "\<exists>s'. client_save K (Some a) ws s = ok s'
     \<and> registry_inv K s' (L(ws := a # L ws)) (F(ws := a # F ws))
     \<and> statics s' = statics s \<and> f_client s' = f_client s \<and> xlog s' = xlog s
     \<and> curr_ws s' = curr_ws s"
proof -
  define s' where
    "s' = s\<lparr>heap := (heap s)(a := (heap s a)\<lparr>next := c_list s ws, f_next := f_list s ws\<rparr>),
            c_list := (c_list s)(ws := Some a), f_list := (f_list s)(ws := Some a)\<rparr>"
  from ws have run: "client_save K (Some a) ws s = ok s'"
    by (simp add: client_save_def Let_def store_def s'_def)
  have nx: "nexts s' = (nexts s)(a := c_list s ws)" "f_nexts s' = (f_nexts s)(a := f_list s ws)"
    "c_list s' = (c_list s)(ws := Some a)" "f_list s' = (f_list s)(ws := Some a)"
    by (auto simp add: nexts_def f_nexts_def fun_eq_iff s'_def)
  have freshF: "a \<notin> set (F i)" if "in_ws K i" for i
    using registry_invD(1) [OF inv that] fresh that by auto
  have "registry_inv K s' (L(ws := a # L ws)) (F(ws := a # F ws))"
    unfolding registry_inv_def
  proof (intro conjI allI impI)
    fix i assume i: "in_ws K i"
    note d = registry_invD(1) [OF inv i]
    show "chain (nexts s') (c_list s' i) ((L(ws := a # L ws)) i)"
      using d [THEN conjunct1] fresh [rule_format, OF i] by (auto simp add: nx)
    show "chain (f_nexts s') (f_list s' i) ((F(ws := a # F ws)) i)"
      using d [THEN conjunct2, THEN conjunct1] freshF [OF i] by (auto simp add: nx)
    show "set ((L(ws := a # L ws)) i) = set ((F(ws := a # F ws)) i)"
      using d by auto
  next
    fix i j assume "in_ws K i \<and> in_ws K j \<and> i \<noteq> j"
    then show "set ((L(ws := a # L ws)) i) \<inter> set ((L(ws := a # L ws)) j) = {}"
      using registry_invD(2) [OF inv, of i j] fresh by auto
  qed
  moreover have "statics s' = statics s" "f_client s' = f_client s" "xlog s' = xlog s"
    "curr_ws s' = curr_ws s"
    by (auto simp add: statics_def fun_eq_iff s'_def)
  ultimately show ?thesis
    using run by auto
qed

lemma client_move_to_front_effect:
  assumes inv: "registry_inv K s L F"
    and w: "c_ws (heap s a) = w" "in_ws K w"
    and mem: "a \<in> set (L w)"
  shows "\<exists>s'. client_move_to_front K (Some a) s = ok s'
     \<and> registry_inv K s' (L(w := a # remove1 a (L w))) F
     \<and> statics s' = statics s \<and> f_client s' = f_client s \<and> xlog s' = xlog s
     \<and> curr_ws s' = curr_ws s"
proof -
  from registry_invD(1) [OF inv w(2)]
  have cL: "chain (nexts s) (c_list s w) (L w)" and LF: "set (L w) = set (F w)"
    by simp_all
  from cL have dL: "distinct (L w)"
    by (rule chain_distinct)
  from mem obtain xs ys where split: "L w = xs @ a # ys" "a \<notin> set xs"
    by (auto dest: split_list_first)
  show ?thesis
  proof (cases xs rule: rev_cases)
    case Nil
    with split cL have "c_list s w = Some a" "L(w := a # remove1 a (L w)) = L"
      by auto
    with w inv show ?thesis
      by (simp add: client_move_to_front_def in_ws_def)
  next
    case (snoc xs' t)
    with split have Lw: "L w = xs' @ t # a # ys" and nin: "a \<notin> set (xs' @ [t])"
      by simp_all
    from dL Lw have nin': "a \<notin> set (xs' @ t # ys)" "t \<notin> set ys"
      by auto
    have rm: "remove1 a (L w) = xs' @ t # ys"
      using Lw nin by (simp add: remove1_append)
    obtain h where h: "c_list s w = Some h" "h \<noteq> a" "h \<in> set (xs' @ [t])"
      using cL Lw nin by (cases xs') auto
    from cL Lw h have ch: "chain (nexts s) (Some h) (xs' @ t # a # ys)"
      by simp
    then have scan: "front_scan (nexts s) h a = Some t"
      by (rule front_scan_found)
    from ch have "chain (nexts s) (Some t) (t # a # ys)"
      by (rule chain_suffix)
    then have nt: "next (heap s t) = Some a"
      by (simp add: nexts_def)
    from ch have "nexts s h \<noteq> None"
      by (cases xs'; cases "tl xs'") auto
    then obtain n where nh: "next (heap s h) = Some n"
      by (auto simp add: nexts_def)
    let ?s1 = "store t ((heap s t)\<lparr>next := next (heap s a)\<rparr>) s"
    let ?s2 = "store a ((heap ?s1 a)\<lparr>next := c_list ?s1 w\<rparr>) ?s1"
    define s' where "s' = ?s2\<lparr>c_list := (c_list ?s2)(w := Some a)\<rparr>"
    from w h nh scan nt have run: "client_move_to_front K (Some a) s = ok s'"
      by (simp add: client_move_to_front_def in_ws_def Let_def s'_def)
    have ta: "t \<noteq> a"
      using nin by auto
    have nx: "nexts s' = ((nexts s)(t := nexts s a))(a := Some h)"
      "c_list s' = (c_list s)(w := Some a)" "f_list s' = f_list s"
      using h by (simp_all add: nexts_def [of s a] s'_def)
    have fnx: "f_nexts s' = f_nexts s"
      using ta by (simp add: s'_def)
    from ch have "chain ((nexts s)(t := nexts s a)) (Some h) (xs' @ t # ys)"
      by (rule chain_unlink)
    with nin' have new: "chain (nexts s') (Some a) (a # xs' @ t # ys)"
      by (simp add: nx)
    have "registry_inv K s' (L(w := a # remove1 a (L w))) F"
      unfolding registry_inv_def
    proof (intro conjI allI impI)
      fix i assume i: "in_ws K i"
      note d = registry_invD(1) [OF inv i]
      show "chain (nexts s') (c_list s' i) ((L(w := a # remove1 a (L w))) i)"
      proof (cases "i = w")
        case True
        with new rm show ?thesis by (simp add: nx)
      next
        case False
        from registry_invD(2) [OF inv i w(2) False] Lw
        have "t \<notin> set (L i)" "a \<notin> set (L i)"
          by auto
        with d [THEN conjunct1] False show ?thesis
          by (simp add: nx)
      qed
      show "chain (f_nexts s') (f_list s' i) (F i)"
        using d by (simp add: fnx nx)
      show "set ((L(w := a # remove1 a (L w))) i) = set (F i)"
        using d mem dL by (auto simp add: set_remove1_eq)
    next
      fix i j assume "in_ws K i \<and> in_ws K j \<and> i \<noteq> j"
      then show "set ((L(w := a # remove1 a (L w))) i) \<inter> set ((L(w := a # remove1 a (L w))) j) = {}"
        using registry_invD(2) [OF inv, of i j] mem dL
        by (auto simp add: set_remove1_eq)
    qed
    moreover have "statics s' = statics s" "f_client s' = f_client s" "xlog s' = xlog s"
      "curr_ws s' = curr_ws s"
      using ta by (simp_all add: s'_def)
    ultimately show ?thesis
      using run by auto
  qed
qed

lemma cardinal_scan_pick:
  "chain (nexts s) p as \<Longrightarrow>
   cardinal_scan K s (Some a) dir p best m =
     ok (cardinal_pick (\<lambda>t. on_side dir (heap s a) (heap s t))
           (\<lambda>t. euclidean_distance K (heap s a) (heap s t)) as best m)"
proof (induction as arbitrary: p best m)
  case Nil
  then show ?case
    by (subst cardinal_scan.simps) simp
next
  case (Cons t as)
  have e: "next (heap s t) = nexts s t"
    by (simp add: nexts_def)
  from Cons.prems have p: "p = Some t" and c: "chain (nexts s) (next (heap s t)) as"
    unfolding e by simp_all
  have hit: "(case dir of
                None \<Rightarrow> False
              | Some EAST \<Rightarrow> geom_x (heap s t) > geom_x (heap s a) \<and> euclidean_distance K (heap s a) (heap s t) < m
              | Some SOUTH \<Rightarrow> geom_y (heap s t) > geom_y (heap s a) \<and> euclidean_distance K (heap s a) (heap s t) < m
              | Some WEST \<Rightarrow> geom_x (heap s t) < geom_x (heap s a) \<and> euclidean_distance K (heap s a) (heap s t) < m
              | Some NORTH \<Rightarrow> geom_y (heap s t) < geom_y (heap s a) \<and> euclidean_distance K (heap s a) (heap s t) < m)
        = (on_side dir (heap s a) (heap s t) \<and> euclidean_distance K (heap s a) (heap s t) < m)"
    by (simp add: on_side_def split: option.split direction.split)
  show ?case
    unfolding p
    by (subst cardinal_scan.simps) (simp add: Let_def hit Cons.IH [OF c])
qed

lemma Min_image_less:
  fixes d :: "nat \<Rightarrow> int"
  assumes "u \<in> set cs" "d u < x"
  shows "Min (d ` set cs) < x"
proof -
  from assms(1) have "Min (d ` set cs) \<le> d u"
    by (intro Min_le) auto
  with assms(2) show ?thesis
    by simp
qed

lemma Min_image_ge:
  fixes d :: "nat \<Rightarrow> int"
  assumes "cs \<noteq> []" "\<forall>u\<in>set cs. x \<le> d u"
  shows "x \<le> Min (d ` set cs)"
  using assms by (simp add: Min_ge_iff)

lemma cardinal_pick_nearest:
  fixes d :: "nat \<Rightarrow> int"
  shows "cardinal_pick side d as best m =
     (if \<exists>t\<in>set (filter side as). d t < m
      then find (\<lambda>t. d t = Min (d ` set (filter side as))) (filter side as)
      else best)"
proof (induction as arbitrary: best m)
  case Nil
  show ?case by simp
next
  case (Cons t as)
  define cs where "cs = filter side as"
  have IH: "cardinal_pick side d as b k =
     (if \<exists>t\<in>set cs. d t < k then find (\<lambda>t. d t = Min (d ` set cs)) cs else b)" for b k
    unfolding cs_def by (rule Cons.IH)
  show ?case
  proof (cases "side t")
    case False
    then have "filter side (t # as) = cs"
      by (simp add: cs_def)
    with False show ?thesis
      by (simp add: IH)
  next
    case True
    then have f: "filter side (t # as) = t # cs"
      by (simp add: cs_def)
    have Min_Cons: "Min (d ` set (t # cs)) = (if cs = [] then d t else min (d t) (Min (d ` set cs)))"
      by simp
    show ?thesis
    proof (cases "d t < m")
      case lt: True
      show ?thesis
      proof (cases "\<exists>u\<in>set cs. d u < d t")
        case True
        then have ne: "cs \<noteq> []" by auto
        from True have less: "Min (d ` set cs) < d t"
          by (auto intro: Min_image_less)
        have "cardinal_pick side d (t # as) best m = find (\<lambda>t. d t = Min (d ` set cs)) cs"
          using \<open>side t\<close> lt True by (simp add: IH)
        also have "\<dots> = find (\<lambda>u. d u = Min (d ` set (t # cs))) (t # cs)"
          using less ne unfolding Min_Cons min.absorb2 [OF less_imp_le [OF less]] by simp
        finally show ?thesis
          using lt unfolding f by simp
      next
        case False
        then have le: "cs \<noteq> [] \<Longrightarrow> d t \<le> Min (d ` set cs)"
          by (intro Min_image_ge) (auto simp add: not_less)
        have m: "Min (d ` set (t # cs)) = d t"
        proof (cases "cs = []")
          case True
          then show ?thesis by simp
        next
          case False
          from min.absorb1 [OF le [OF False]] False show ?thesis
            unfolding Min_Cons by simp
        qed
        have "cardinal_pick side d (t # as) best m = Some t"
          using \<open>side t\<close> lt False by (simp add: IH)
        also have "\<dots> = find (\<lambda>u. d u = Min (d ` set (t # cs))) (t # cs)"
          unfolding m by simp
        finally show ?thesis
          using lt unfolding f by simp
      qed
    next
      case ge: False
      show ?thesis
      proof (cases "\<exists>u\<in>set cs. d u < m")
        case True
        then have ne: "cs \<noteq> []" by auto
        from True ge have less: "Min (d ` set cs) < d t"
          by (auto intro: Min_image_less)
        have "cardinal_pick side d (t # as) best m = find (\<lambda>t. d t = Min (d ` set cs)) cs"
          using ge True by (simp add: IH)
        also have "\<dots> = find (\<lambda>u. d u = Min (d ` set (t # cs))) (t # cs)"
          using less ne unfolding Min_Cons min.absorb2 [OF less_imp_le [OF less]] by simp
        finally show ?thesis
          using True unfolding f by auto
      next
        case False
        have "cardinal_pick side d (t # as) best m = best"
          using ge False by (simp add: IH)
        then show ?thesis
          using False ge unfolding f by auto
      qed
    qed
  qed
qed

lemma in_ws_K0: "in_ws K0 i = (i = 0 \<or> i = 1)"
  by (auto simp add: in_ws_def K0_def)

lemma registry_inv_wm2: "registry_inv K0 wm2 L2 F2"
  by (auto simp add: registry_inv_def in_ws_K0 L2_def F2_def wm2_def wm0_def client0_def nexts_def f_nexts_def)

lemma case_ok [simp]:
  "(case ok v of None \<Rightarrow> n | Some (Inl e) \<Rightarrow> g e | Some (Inr s1) \<Rightarrow> f s1) = f v"
  by (simp only: ok_def option.case sum.case)

lemma case_fault [simp]:
  "(case fault e of None \<Rightarrow> n | Some (Inl e) \<Rightarrow> g e | Some (Inr s1) \<Rightarrow> f s1) = g e"
  by (simp only: fault_def option.case sum.case)

lemma skelD:
  assumes "skel s' = skel s"
  shows "statics s' = statics s" "curr_ws s' = curr_ws s" "f_client s' = f_client s"
    "c_list s' = c_list s" "f_list s' = f_list s" "nexts s' = nexts s" "f_nexts s' = f_nexts s"
    "conf s' = conf s" "m_list s' = m_list s" "ws_m_list s' = ws_m_list s"
    "c_ws (heap s' a) = c_ws (heap s a)" "display_width s' = display_width s" "root s' = root s"
  using assms by (auto simp add: skel_def statics_def fun_eq_iff)

lemma skel_simps [simp]:
  "c_ws cl = c_ws (heap s t) \<Longrightarrow> next cl = next (heap s t) \<Longrightarrow> f_next cl = f_next (heap s t)
     \<Longrightarrow> skel (store t cl s) = skel s"
  "skel (emit x s) = skel s"
  "skel (s\<lparr>xlog := l\<rparr>) = skel s"
  by (simp_all add: skel_def)

lemma skel_heap_xlog:
  "c_ws cl = c_ws (heap s t) \<Longrightarrow> next cl = next (heap s t) \<Longrightarrow> f_next cl = f_next (heap s t)
     \<Longrightarrow> skel (s\<lparr>heap := (heap s)(t := cl), xlog := l\<rparr>) = skel s"
  by (auto simp add: skel_def statics_def nexts_def f_nexts_def fun_eq_iff)

lemma monitor_of_skel:
  assumes "skel s' = skel s"
  shows "monitor_of K s' i = monitor_of K s i"
  using skelD(9,10) [OF assms] by (simp add: monitor_of_def Let_def)

lemma mon_ok_skel:
  assumes "skel s' = skel s"
  shows "mon_ok K s' a = mon_ok K s a"
  using skelD(8,11) [OF assms] monitor_of_skel [OF assms] by (simp add: mon_ok_def)

lemma chain_skel:
  assumes "skel s' = skel s"
  shows "chain (nexts s') (c_list s' i) as = chain (nexts s) (c_list s i) as"
    "nexts s' t = nexts s t"
  using skelD(4,6) [OF assms] by simp_all

lemma client_move_absolute_skel:
  "\<exists>s'. client_move_absolute (Some a) x y s = ok s' \<and> skel s' = skel s"
  by (simp add: client_move_absolute_def Let_def)

lemma client_resize_absolute_skel:
  "\<exists>s'. client_resize_absolute K (Some a) w h s = ok s' \<and> skel s' = skel s"
  by (simp add: client_resize_absolute_def Let_def)

lemma client_move_relative_skel:
  assumes "mon_ok K s a"
  shows "\<exists>s'. client_move_relative K (Some a) x y s = ok s' \<and> skel s' = skel s"
proof (cases "edge_lock (conf s)")
  case True
  with assms obtain m where "monitor_of K s (c_ws (heap s a)) = Inr m"
    by (auto simp add: mon_ok_def)
  with True show ?thesis
    by (simp add: client_move_relative_def Let_def client_move_absolute_skel)
next
  case False
  then show ?thesis
    by (simp add: client_move_relative_def Let_def client_move_absolute_skel)
qed

lemma client_resize_relative_skel:
  assumes "mon_ok K s a"
  shows "\<exists>s'. client_resize_relative K (Some a) w h s = ok s' \<and> skel s' = skel s"
proof (cases "edge_lock (conf s)")
  case True
  with assms obtain m where "monitor_of K s (c_ws (heap s a)) = Inr m"
    by (auto simp add: mon_ok_def)
  with True show ?thesis
    by (simp add: client_resize_relative_def Let_def client_resize_absolute_skel)
next
  case False
  then show ?thesis
    by (simp add: client_resize_relative_def Let_def client_resize_absolute_skel)
qed

lemma client_refresh_skel:
  assumes "mon_ok K s a"
  shows "\<exists>s'. client_refresh K (Some a) s = ok s' \<and> skel s' = skel s"
proof -
  from client_move_relative_skel [OF assms] obtain s1 where
    s1: "client_move_relative K (Some a) 0 0 s = ok s1" "skel s1 = skel s" by blast
  with assms have "mon_ok K s1 a" by (simp add: mon_ok_skel [OF s1(2)])
  from client_resize_relative_skel [OF this] obtain s2 where
    s2: "client_resize_relative K (Some a) 0 0 s1 = ok s2" "skel s2 = skel s1" by blast
  with s1 assms have "mon_ok K s2 a" by (simp add: mon_ok_skel [OF s2(2)] mon_ok_skel [OF s1(2)])
  from client_move_relative_skel [OF this] obtain s3 where
    s3: "client_move_relative K (Some a) 0 0 s2 = ok s3" "skel s3 = skel s2" by blast
  with s1 s2 assms have "mon_ok K s3 a"
    by (simp add: mon_ok_skel [OF s3(2)] mon_ok_skel [OF s2(2)] mon_ok_skel [OF s1(2)])
  from client_resize_relative_skel [OF this] obtain s4 where
    s4: "client_resize_relative K (Some a) 0 0 s3 = ok s4" "skel s4 = skel s3" by blast
  from s1 s2 s3 s4 show ?thesis
    by (simp add: client_refresh_def)
qed

lemma client_raise_skel: "\<exists>s'. client_raise c s = ok s' \<and> skel s' = skel s"
  by (cases c) (simp_all add: client_raise_def Let_def)

lemma client_set_color_skel: "\<exists>s'. client_set_color (Some a) i b s = ok s' \<and> skel s' = skel s"
  by (simp add: client_set_color_def Let_def)

lemma client_set_input_skel: "\<exists>s'. client_set_input (Some a) s = ok s' \<and> skel s' = skel s"
  by (simp add: client_set_input_def)

lemma manage_xsend_icccm_skel: "\<exists>s'. manage_xsend_icccm K (Some a) atom s = ok s' \<and> skel s' = skel s"
  by (simp add: manage_xsend_icccm_def Let_def)

lemma client_hide_skel: "\<exists>s'. client_hide (Some a) s = ok s' \<and> skel s' = skel s"
proof (cases "hidden (heap s a)")
  case True
  then show ?thesis by (simp add: client_hide_def)
next
  case False
  let ?s1 = "store a ((heap s a)\<lparr>x_hide := geom_x (heap s a)\<rparr>) s"
  have k1: "skel ?s1 = skel s" by simp
  obtain s2 where s2: "client_move_absolute (Some a) (c_add (display_width ?s1) (b_width (conf ?s1)))
                         (geom_y (heap ?s1 a)) ?s1 = ok s2" "skel s2 = skel ?s1"
    using client_move_absolute_skel by blast
  have "skel (store a ((heap s2 a)\<lparr>hidden := True\<rparr>) s2) = skel s2" by simp
  with False s2 k1 show ?thesis
    by (simp add: client_hide_def Let_def)
qed

lemma client_show_skel:
  assumes "mon_ok K s a"
  shows "\<exists>s'. client_show K (Some a) s = ok s' \<and> skel s' = skel s"
proof (cases "hidden (heap s a)")
  case False
  then show ?thesis by (simp add: client_show_def)
next
  case True
  obtain s1 where s1: "client_move_absolute (Some a) (x_hide (heap s a)) (geom_y (heap s a)) s = ok s1"
      "skel s1 = skel s"
    using client_move_absolute_skel by blast
  obtain s2 where s2: "client_raise (Some a) s1 = ok s2" "skel s2 = skel s1"
    using client_raise_skel by blast
  let ?s3 = "store a ((heap s2 a)\<lparr>hidden := False\<rparr>) s2"
  have k3: "skel ?s3 = skel s" using s1 s2 by simp
  with assms have "mon_ok K ?s3 a" by (simp add: mon_ok_skel [OF k3])
  from client_refresh_skel [OF this] obtain s4 where
    "client_refresh K (Some a) ?s3 = ok s4" "skel s4 = skel ?s3" by blast
  with True s1 s2 k3 show ?thesis
    by (simp add: client_show_def)
qed

lemma hide_from_skel:
  "chain (nexts s) p as \<Longrightarrow> \<exists>s'. hide_from p s = ok s' \<and> skel s' = skel s"
proof (induction as arbitrary: p s)
  case Nil
  then show ?case by (subst hide_from.simps) simp
next
  case (Cons t as)
  obtain s1 where s1: "client_hide (Some t) s = ok s1" "skel s1 = skel s"
    using client_hide_skel by blast
  have e: "next (heap s1 t) = nexts s1 t" by (simp add: nexts_def)
  from Cons.prems have "chain (nexts s1) (next (heap s1 t)) as"
    unfolding e by (simp add: chain_skel(2) [OF s1(2)] skelD(6) [OF s1(2)])
  from Cons.IH [OF this] obtain s' where "hide_from (next (heap s1 t)) s1 = ok s'" "skel s' = skel s1"
    by blast
  with Cons.prems s1 show ?case
    by (subst hide_from.simps) simp
qed

lemma show_from_skel:
  "chain (nexts s) p as \<Longrightarrow> \<forall>t\<in>set as. mon_ok K s t \<Longrightarrow>
   \<exists>s'. show_from K p s = ok s' \<and> skel s' = skel s"
proof (induction as arbitrary: p s)
  case Nil
  then show ?case by (subst show_from.simps) simp
next
  case (Cons t as)
  from Cons.prems have "mon_ok K s t" by simp
  from client_show_skel [OF this] obtain s1 where s1: "client_show K (Some t) s = ok s1" "skel s1 = skel s"
    by blast
  let ?s3 = "emit (XLowerWindow (dec (heap s1 t))) (emit (XLowerWindow (window (heap s1 t))) s1)"
  have k3: "skel ?s3 = skel s" using s1 by simp
  have e: "next (heap ?s3 t) = nexts ?s3 t" by (simp add: nexts_def)
  from Cons.prems have c: "chain (nexts ?s3) (next (heap ?s3 t)) as"
    unfolding e by (simp add: skelD(6) [OF s1(2)])
  from Cons.prems have m: "\<forall>t\<in>set as. mon_ok K ?s3 t"
    by (simp add: mon_ok_skel [OF k3])
  from Cons.IH [OF c m] obtain s' where "show_from K (next (heap ?s3 t)) ?s3 = ok s'" "skel s' = skel ?s3"
    by blast
  with Cons.prems s1 k3 show ?case
    by (subst show_from.simps) (simp add: Let_def)
qed

lemma switch_ws_loop_skel:
  "in_ws K ws \<Longrightarrow>
   \<forall>i\<in>set is. \<exists>as. chain (nexts s) (c_list s i) as \<and> (\<forall>t\<in>set as. mon_ok K s t) \<Longrightarrow>
   \<exists>s'. switch_ws_loop K ws is s = ok s' \<and> skel s' = skel s"
proof (induction "is" arbitrary: s)
  case Nil
  then show ?case by simp
next
  case (Cons i "is")
  then obtain as where as: "chain (nexts s) (c_list s i) as" "\<forall>t\<in>set as. mon_ok K s t"
    by auto
  have "\<exists>s1. (if i \<noteq> ws \<and> ws_m_list s i = ws_m_list s ws then hide_from (c_list s i) s
           else if i = ws then show_from K (c_list s i) s
           else ok s) = ok s1 \<and> skel s1 = skel s"
    using hide_from_skel [OF as(1)] show_from_skel [OF as] by auto
  then obtain s1 where s1: "(if i \<noteq> ws \<and> ws_m_list s i = ws_m_list s ws then hide_from (c_list s i) s
           else if i = ws then show_from K (c_list s i) s
           else ok s) = ok s1" "skel s1 = skel s"
    by blast
  from Cons.prems(2) have "\<forall>i\<in>set is. \<exists>as. chain (nexts s1) (c_list s1 i) as \<and> (\<forall>t\<in>set as. mon_ok K s1 t)"
    by (simp add: chain_skel(1) [OF s1(2)] mon_ok_skel [OF s1(2)])
  from Cons.IH [OF Cons.prems(1) this] obtain s' where "switch_ws_loop K ws is s1 = ok s'" "skel s' = skel s1"
    by blast
  with s1 Cons.prems(1) show ?case
    by simp
qed

lemma staticsD:
  assumes "statics s' = statics s"
  shows "conf s' = conf s" "m_list s' = m_list s" "ws_m_list s' = ws_m_list s"
    "c_ws (heap s' a) = c_ws (heap s a)" "display_width s' = display_width s" "root s' = root s"
  using assms by (auto simp add: statics_def fun_eq_iff)

lemma registry_inv_skel:
  assumes "skel s' = skel s"
  shows "registry_inv K s' L F = registry_inv K s L F"
  using skelD(4,5,6,7) [OF assms] by (simp add: registry_inv_cong [of s' s])

lemma wm_wfI:
  assumes "registry_inv K s' L' F'" "statics s' = statics s" "wm_wf K s L F"
    and "\<And>i t. in_ws K i \<Longrightarrow> t \<in> set (L' i) \<Longrightarrow> c_ws (heap s t) = i"
  shows "wm_wf K s' L' F'"
  using assms(1,3,4) staticsD(2,3,4) [OF assms(2)]
  by (simp add: wm_wf_def)

lemma wm_wfD:
  assumes "wm_wf K s L F"
  shows "registry_inv K s L F"
    "in_ws K i \<Longrightarrow> t \<in> set (L i) \<Longrightarrow> c_ws (heap s t) = i"
    "in_ws K i \<Longrightarrow> \<exists>m. monitor_of K s i = Inr m"
  using assms by (auto simp add: wm_wf_def monitor_of_def Let_def)

lemma client_manage_focus_effect:
  assumes inv: "registry_inv K s L F"
    and w: "c_ws (heap s a) = w" "in_ws K w"
    and mem: "a \<in> set (L w)"
  shows "\<exists>s'. client_manage_focus K (Some a) s = ok s'
     \<and> registry_inv K s' (L(w := a # remove1 a (L w))) F
     \<and> statics s' = statics s \<and> curr_ws s' = curr_ws s \<and> f_client s' = Some a"
proof -
  have "\<exists>s2. (if Some a \<noteq> None \<and> f_client s \<noteq> None then
          and_then (client_set_color (f_client s) (iu_color (conf s)) (bu_color (conf s)) s) (\<lambda>s1.
          manage_xsend_icccm K (Some a) WMTakeFocus s1)
        else ok s) = ok s2 \<and> skel s2 = skel s"
  proof (cases "f_client s")
    case None
    then show ?thesis by simp
  next
    case (Some f)
    obtain s1 where s1: "client_set_color (Some f) (iu_color (conf s)) (bu_color (conf s)) s = ok s1"
        "skel s1 = skel s"
      using client_set_color_skel by blast
    obtain s2 where "manage_xsend_icccm K (Some a) WMTakeFocus s1 = ok s2" "skel s2 = skel s1"
      using manage_xsend_icccm_skel by blast
    with Some s1 show ?thesis by simp
  qed
  then obtain s2 where s2: "(if Some a \<noteq> None \<and> f_client s \<noteq> None then
          and_then (client_set_color (f_client s) (iu_color (conf s)) (bu_color (conf s)) s) (\<lambda>s1.
          manage_xsend_icccm K (Some a) WMTakeFocus s1)
        else ok s) = ok s2" and k2: "skel s2 = skel s"
    by blast
  obtain s3 where s3: "client_set_color (Some a) (if_color (conf s2)) (bf_color (conf s2)) s2 = ok s3"
      and k3: "skel s3 = skel s2"
    using client_set_color_skel by blast
  obtain s4 where s4: "client_raise (Some a) s3 = ok s4" and k4: "skel s4 = skel s3"
    using client_raise_skel by blast
  obtain s5 where s5: "client_set_input (Some a) s4 = ok s5" and k5: "skel s5 = skel s4"
    using client_set_input_skel by blast
  have k: "skel s5 = skel s"
    using k2 k3 k4 k5 by simp
  define s8 where "s8 = emit (XChangeProperty (root s5) NetActiveWindow PropModeReplace
                            [XWindow (window (heap s5 a))])
                         ((emit (XDeleteProperty (root s5) NetActiveWindow) s5)\<lparr>f_client := Some a\<rparr>)"
  have p8: "nexts s8 = nexts s" "f_nexts s8 = f_nexts s" "c_list s8 = c_list s" "f_list s8 = f_list s"
    "statics s8 = statics s" "curr_ws s8 = curr_ws s" "f_client s8 = Some a"
    "c_ws (heap s8 a) = w"
    using skelD [OF k] w by (simp_all add: s8_def)
  from inv p8 have inv8: "registry_inv K s8 L F"
    by (simp add: registry_inv_cong [of s8 s])
  from client_move_to_front_effect [OF inv8 p8(8) w(2) mem] obtain s9 where
    s9: "client_move_to_front K (Some a) s8 = ok s9"
    and p9: "registry_inv K s9 (L(w := a # remove1 a (L w))) F" "statics s9 = statics s8"
      "f_client s9 = f_client s8" "curr_ws s9 = curr_ws s8"
    by blast
  obtain s10 where s10: "manage_xsend_icccm K (Some a) WMTakeFocus s9 = ok s10" and k10: "skel s10 = skel s9"
    using manage_xsend_icccm_skel by blast
  from s2 s3 s4 s5 s9 s10 have run: "client_manage_focus K (Some a) s = ok s10"
    by (simp add: client_manage_focus_def Let_def s8_def)
  moreover from p9 have "registry_inv K s10 (L(w := a # remove1 a (L w))) F"
    by (simp add: registry_inv_skel [OF k10])
  moreover have "statics s10 = statics s" "curr_ws s10 = curr_ws s" "f_client s10 = Some a"
    using skelD(1,2,3) [OF k10] p9 p8 by simp_all
  ultimately show ?thesis
    by blast
qed

lemma switch_ws_effect:
  assumes wf: "wm_wf K s L F" and ws: "in_ws K ws"
  shows "\<exists>s'. switch_ws K ws s = ok s' \<and> wm_wf K s' L F \<and> curr_ws s' = ws
     \<and> f_client s' = (case L ws of [] \<Rightarrow> f_client s | h # rest \<Rightarrow> Some h)"
proof -
  note inv = wm_wfD(1) [OF wf]
  have pre: "\<forall>i\<in>set [0..WORKSPACE_NUMBER K - 1].
               \<exists>as. chain (nexts s) (c_list s i) as \<and> (\<forall>t\<in>set as. mon_ok K s t)"
  proof
    fix i assume "i \<in> set [0..WORKSPACE_NUMBER K - 1]"
    then have i: "in_ws K i" by (simp add: in_ws_def)
    have "mon_ok K s t" if "t \<in> set (L i)" for t
      using wm_wfD(2) [OF wf i that] wm_wfD(3) [OF wf i] by (simp add: mon_ok_def)
    with registry_invD(1) [OF inv i]
    show "\<exists>as. chain (nexts s) (c_list s i) as \<and> (\<forall>t\<in>set as. mon_ok K s t)"
      by blast
  qed
  from switch_ws_loop_skel [OF ws pre] obtain s1 where
    s1: "switch_ws_loop K ws [0..WORKSPACE_NUMBER K - 1] s = ok s1" and k1: "skel s1 = skel s"
    by blast
  define s2 where "s2 = s1\<lparr>curr_ws := ws\<rparr>"
  have p2: "nexts s2 = nexts s" "f_nexts s2 = f_nexts s" "c_list s2 = c_list s" "f_list s2 = f_list s"
    "statics s2 = statics s" "curr_ws s2 = ws" "f_client s2 = f_client s"
    using skelD [OF k1] by (simp_all add: s2_def)
  from inv p2 have inv2: "registry_inv K s2 L F"
    by (simp add: registry_inv_cong [of s2 s])
  have "monitor_of K s2 ws = monitor_of K s ws"
    using staticsD(2,3) [OF p2(5)] by (simp add: monitor_of_def Let_def)
  with wm_wfD(3) [OF wf ws] obtain m where m: "monitor_of K s2 ws = Inr m"
    by auto
  from registry_invD(1) [OF inv ws] have cL: "chain (nexts s) (c_list s ws) (L ws)"
    by simp
  show ?thesis
  proof (cases "L ws")
    case Nil
    with cL have "c_list s ws = None" by simp
    with p2 have "client_manage_focus K (c_list s2 (curr_ws s2)) s2 = ok s2"
      by (simp add: client_manage_focus_def)
    with s1 m have run: "switch_ws K ws s =
        ok (emit (XChangeProperty (root s2) NetCurrentDesktop PropModeReplace [XCardinal ws]) s2)"
      by (simp add: switch_ws_def Let_def s2_def)
    let ?s' = "emit (XChangeProperty (root s2) NetCurrentDesktop PropModeReplace [XCardinal ws]) s2"
    have "registry_inv K ?s' L F"
      using inv2 by (simp add: registry_inv_cong [of ?s' s2])
    then have "wm_wf K ?s' L F"
      using p2 wm_wfD(2) [OF wf] by (intro wm_wfI [OF _ _ wf]) simp_all
    with run Nil p2 show ?thesis
      by simp
  next
    case (Cons h rest)
    with cL have hd: "c_list s ws = Some h" by simp
    have hw: "c_ws (heap s2 h) = ws"
      using wm_wfD(2) [OF wf ws, of h] Cons staticsD(4) [OF p2(5)] by simp
    have hm: "h \<in> set (L ws)"
      using Cons by simp
    from client_manage_focus_effect [OF inv2 hw ws hm] obtain s3 where
      s3: "client_manage_focus K (Some h) s2 = ok s3"
      and p3: "registry_inv K s3 (L(ws := h # remove1 h (L ws))) F" "statics s3 = statics s2"
        "curr_ws s3 = curr_ws s2" "f_client s3 = Some h"
      by blast
    have same: "L(ws := h # remove1 h (L ws)) = L"
      using Cons by (simp add: fun_upd_idem)
    let ?s' = "emit (XChangeProperty (root s3) NetCurrentDesktop PropModeReplace [XCardinal ws]) s3"
    from s1 m s3 hd p2 have run: "switch_ws K ws s = ok ?s'"
      by (simp add: switch_ws_def Let_def s2_def)
    have "registry_inv K ?s' L F"
      using p3(1) unfolding same by (simp add: registry_inv_cong [of ?s' s3])
    then have "wm_wf K ?s' L F"
      using p2 p3 wm_wfD(2) [OF wf] by (intro wm_wfI [OF _ _ wf]) simp_all
    with run Cons p2 p3 show ?thesis
      by simp
  qed
qed

lemma switch_ws_wm1: "switch_ws K0 1 wm1 = ok wm1_switched"
  by (simp add: switch_ws_def upto.simps in_ws_def K0_def hide_from.simps show_from.simps
        client_hide_def client_move_absolute_eq client_manage_focus_def monitor_of_def Let_def
        wm1_switched_def wm1_def wm0_def client0_def c_add_def c_int_def emit_def store_def)

lemma client_delete_wm2: "client_delete K0 (Some 2) wm2 = ok wm2_deleted"
  by (simp add: client_delete_def delete_in_stack_def delete_in_focus_list_def delete_scan.simps
        update_c_list_def update_c_list_from.simps upto.simps in_ws_def K0_def Let_def nexts_def f_nexts_def
        wm2_deleted_def wm2_def wm0_def client0_def emit_def store_def)

lemma focus_registeredI:
  assumes "\<And>f. f_client s' = Some f \<Longrightarrow> in_ws K (c_ws (heap s' f)) \<and> f \<in> set (L' (c_ws (heap s' f)))"
  shows "focus_registered K s' L'"
  using assms by (simp add: focus_registered_def split: option.split)

lemma focus_registeredD:
  "focus_registered K s L \<Longrightarrow> f_client s = Some f \<Longrightarrow>
     in_ws K (c_ws (heap s f)) \<and> f \<in> set (L (c_ws (heap s f)))"
  by (simp add: focus_registered_def)

lemma focus_registered_kept:
  assumes wf: "wm_wf K s L F" and fr: "focus_registered K s L"
  shows
   "(in_ws K ws \<and> unregistered K L a \<and> c_ws (heap s a) = ws \<longrightarrow>
       (\<exists>s'. client_save K (Some a) ws s = ok s'
            \<and> wm_wf K s' (L(ws := a # L ws)) (F(ws := a # F ws))
            \<and> focus_registered K s' (L(ws := a # L ws)) \<and> f_client s' = f_client s))
    \<and> (in_ws K (c_ws (heap s a)) \<and> a \<in> set (L (c_ws (heap s a)))
        \<and> (f_client s \<noteq> Some a \<or> L (c_ws (heap s a)) = [a]) \<longrightarrow>
       (\<exists>s'. client_delete K (Some a) s = ok s'
            \<and> wm_wf K s' (L(c_ws (heap s a) := remove1 a (L (c_ws (heap s a)))))
                          (F(c_ws (heap s a) := remove1 a (F (c_ws (heap s a)))))
            \<and> focus_registered K s' (L(c_ws (heap s a) := remove1 a (L (c_ws (heap s a)))))
            \<and> f_client s' = (if L (c_ws (heap s a)) = [a] then None else f_client s)))
    \<and> (in_ws K (c_ws (heap s a)) \<and> a \<in> set (L (c_ws (heap s a))) \<longrightarrow>
       (\<exists>s'. client_manage_focus K (Some a) s = ok s'
            \<and> wm_wf K s' (L(c_ws (heap s a) := a # remove1 a (L (c_ws (heap s a))))) F
            \<and> focus_registered K s' (L(c_ws (heap s a) := a # remove1 a (L (c_ws (heap s a)))))
            \<and> f_client s' = Some a))
    \<and> (in_ws K ws \<longrightarrow>
       (\<exists>s'. switch_ws K ws s = ok s' \<and> wm_wf K s' L F \<and> focus_registered K s' L
            \<and> curr_ws s' = ws
            \<and> f_client s' = (case L ws of [] \<Rightarrow> f_client s | h # rest \<Rightarrow> Some h)))"
proof (intro conjI impI)
  note inv = wm_wfD(1) [OF wf]
  have cw: "c_ws (heap s t) = i" if "in_ws K i" "t \<in> set (L i)" for i t
    using wm_wfD(2) [OF wf that] .
  {
    assume a: "in_ws K ws \<and> unregistered K L a \<and> c_ws (heap s a) = ws"
    then have fresh: "\<forall>i. in_ws K i \<longrightarrow> a \<notin> set (L i)"
      by (simp add: unregistered_def)
    from a client_save_effect [OF inv _ fresh, of ws] obtain s' where
      s': "client_save K (Some a) ws s = ok s'"
      "registry_inv K s' (L(ws := a # L ws)) (F(ws := a # F ws))"
      "statics s' = statics s" "f_client s' = f_client s"
      by blast
    have "wm_wf K s' (L(ws := a # L ws)) (F(ws := a # F ws))"
    proof (rule wm_wfI [OF s'(2,3) wf])
      fix i t assume i: "in_ws K i" and t: "t \<in> set ((L(ws := a # L ws)) i)"
      show "c_ws (heap s t) = i"
      proof (cases "t \<in> set (L i)")
        case True
        then show ?thesis by (rule cw [OF i])
      next
        case False
        with t have "i = ws" "t = a" by (auto split: if_splits)
        with a show ?thesis by simp
      qed
    qed
    moreover have "focus_registered K s' (L(ws := a # L ws))"
      using focus_registeredD [OF fr] s'(4) staticsD(4) [OF s'(3)]
      by (intro focus_registeredI) auto
    ultimately show "\<exists>s'. client_save K (Some a) ws s = ok s'
            \<and> wm_wf K s' (L(ws := a # L ws)) (F(ws := a # F ws))
            \<and> focus_registered K s' (L(ws := a # L ws)) \<and> f_client s' = f_client s"
      using s' by blast
  }
  {
    let ?w = "c_ws (heap s a)"
    assume a: "in_ws K ?w \<and> a \<in> set (L ?w) \<and> (f_client s \<noteq> Some a \<or> L ?w = [a])"
    from a client_delete_effect [OF inv refl, of a] obtain s' where
      s': "client_delete K (Some a) s = ok s'"
      "registry_inv K s' (L(?w := remove1 a (L ?w))) (F(?w := remove1 a (F ?w)))"
      "statics s' = statics s" "f_client s' = (if L ?w = [a] then None else f_client s)"
      by blast
    have "wm_wf K s' (L(?w := remove1 a (L ?w))) (F(?w := remove1 a (F ?w)))"
    proof (rule wm_wfI [OF s'(2,3) wf])
      fix i t assume i: "in_ws K i" and t: "t \<in> set ((L(?w := remove1 a (L ?w))) i)"
      then have "t \<in> set (L i)"
        by (auto split: if_splits dest: subsetD [OF set_remove1_subset])
      then show "c_ws (heap s t) = i" by (rule cw [OF i])
    qed
    moreover have "focus_registered K s' (L(?w := remove1 a (L ?w)))"
    proof (rule focus_registeredI)
      fix f assume f: "f_client s' = Some f"
      with s'(4) have fs: "f_client s = Some f" "L ?w \<noteq> [a]"
        by (auto split: if_splits)
      with a have "f \<noteq> a" by auto
      with focus_registeredD [OF fr fs(1)] staticsD(4) [OF s'(3)]
      show "in_ws K (c_ws (heap s' f)) \<and> f \<in> set ((L(?w := remove1 a (L ?w))) (c_ws (heap s' f)))"
        by auto
    qed
    ultimately show "\<exists>s'. client_delete K (Some a) s = ok s'
            \<and> wm_wf K s' (L(?w := remove1 a (L ?w))) (F(?w := remove1 a (F ?w)))
            \<and> focus_registered K s' (L(?w := remove1 a (L ?w)))
            \<and> f_client s' = (if L ?w = [a] then None else f_client s)"
      using s' by blast
  }
  {
    let ?w = "c_ws (heap s a)"
    assume a: "in_ws K ?w \<and> a \<in> set (L ?w)"
    from a client_manage_focus_effect [OF inv refl, of a] obtain s' where
      s': "client_manage_focus K (Some a) s = ok s'"
      "registry_inv K s' (L(?w := a # remove1 a (L ?w))) F"
      "statics s' = statics s" "f_client s' = Some a"
      by blast
    have "wm_wf K s' (L(?w := a # remove1 a (L ?w))) F"
    proof (rule wm_wfI [OF s'(2,3) wf])
      fix i t assume i: "in_ws K i" and t: "t \<in> set ((L(?w := a # remove1 a (L ?w))) i)"
      with a have "t \<in> set (L i)"
        by (auto split: if_splits dest: subsetD [OF set_remove1_subset])
      then show "c_ws (heap s t) = i" by (rule cw [OF i])
    qed
    moreover have "focus_registered K s' (L(?w := a # remove1 a (L ?w)))"
      using a s'(4) staticsD(4) [OF s'(3)]
      by (intro focus_registeredI) auto
    ultimately show "\<exists>s'. client_manage_focus K (Some a) s = ok s'
            \<and> wm_wf K s' (L(?w := a # remove1 a (L ?w))) F
            \<and> focus_registered K s' (L(?w := a # remove1 a (L ?w)))
            \<and> f_client s' = Some a"
      using s' by blast
  }
  {
    assume ws: "in_ws K ws"
    from switch_ws_effect [OF wf ws] obtain s' where
      s': "switch_ws K ws s = ok s'" "wm_wf K s' L F" "curr_ws s' = ws"
      "f_client s' = (case L ws of [] \<Rightarrow> f_client s | h # rest \<Rightarrow> Some h)"
      by blast
    have cw': "c_ws (heap s' t) = c_ws (heap s t)" if "in_ws K i" "t \<in> set (L i)" for i t
      using wm_wfD(2) [OF wf that] wm_wfD(2) [OF s'(2) that] by simp
    have "focus_registered K s' L"
    proof (rule focus_registeredI)
      fix f assume f: "f_client s' = Some f"
      show "in_ws K (c_ws (heap s' f)) \<and> f \<in> set (L (c_ws (heap s' f)))"
      proof (cases "L ws")
        case Nil
        with f s'(4) have "f_client s = Some f" by simp
        from focus_registeredD [OF fr this] cw' [of "c_ws (heap s f)" f] show ?thesis
          by simp
      next
        case (Cons h rest)
        with f s'(4) have "f = h" by simp
        with Cons wm_wfD(2) [OF s'(2) ws, of h] ws show ?thesis
          by simp
      qed
    qed
    with s' show "\<exists>s'. switch_ws K ws s = ok s' \<and> wm_wf K s' L F \<and> focus_registered K s' L
            \<and> curr_ws s' = ws
            \<and> f_client s' = (case L ws of [] \<Rightarrow> f_client s | h # rest \<Rightarrow> Some h)"
      by blast
  }
qed

lemma wm_wf_skel:
  assumes "skel s' = skel s"
  shows "wm_wf K s' L F = wm_wf K s L F"
  using registry_inv_skel [OF assms] skelD(9,10,11) [OF assms]
  by (simp add: wm_wf_def)

lemma wm_wfI2:
  assumes "registry_inv K s' L' F'" "m_list s' = m_list s" "ws_m_list s' = ws_m_list s"
    "wm_wf K s L F"
    and "\<And>i t. in_ws K i \<Longrightarrow> t \<in> set (L' i) \<Longrightarrow> c_ws (heap s' t) = i"
  shows "wm_wf K s' L' F'"
  using assms by (simp add: wm_wf_def)

lemma chain_successor:
  assumes "chain nx p as" "c \<in> set as" "nx c = Some t"
  shows "t \<in> set as"
proof -
  from assms(2) obtain xs ys where split: "as = xs @ c # ys"
    by (auto simp add: in_set_conv_decomp)
  with assms(1) have "chain nx (Some c) (c # ys)"
    by (auto dest: chain_suffix)
  with assms(3) have "t \<in> set ys"
    by (cases ys) auto
  with split show ?thesis by simp
qed

lemma focus_next_effect:
  assumes wf: "wm_wf K s L F" and i: "in_ws K i" and c: "c \<in> set (L i)"
  shows "\<exists>s' t. focus_next K (Some c) s = ok s' \<and> t \<in> set (L i)
     \<and> wm_wf K s' (L(i := t # remove1 t (L i))) F
     \<and> f_client s' = Some t \<and> statics s' = statics s \<and> curr_ws s' = curr_ws s"
proof -
  note inv = wm_wfD(1) [OF wf]
  have cw: "c_ws (heap s t) = i" if "t \<in> set (L i)" for t
    using wm_wfD(2) [OF wf i that] .
  from registry_invD(1) [OF inv i]
  have cF: "chain (f_nexts s) (f_list s i) (F i)" and LF: "set (L i) = set (F i)"
    by simp_all
  from c LF have cFm: "c \<in> set (F i)" by simp
  have fn: "f_next (heap s c) = f_nexts s c" by (simp add: f_nexts_def)
  define tmp where "tmp = (if f_next (heap s c) = None then f_list s i else f_next (heap s c))"
  have "\<exists>t. tmp = Some t \<and> t \<in> set (L i)"
  proof (cases "f_next (heap s c)")
    case None
    from cF cFm obtain h where "f_list s i = Some h" "h \<in> set (F i)"
      by (cases "F i") auto
    with None LF show ?thesis by (simp add: tmp_def)
  next
    case (Some t)
    then have "f_nexts s c = Some t" by (simp add: f_nexts_def)
    from chain_successor [OF cF cFm this] LF have "t \<in> set (L i)" by simp
    with Some show ?thesis
      by (simp add: tmp_def)
  qed
  then obtain t where t: "tmp = Some t" "t \<in> set (L i)"
    by blast
  have run: "focus_next K (Some c) s = client_manage_focus K (Some t) s"
  proof (cases "f_list s i = Some c \<and> f_next (heap s c) = None")
    case True
    with t have "t = c" by (simp add: tmp_def)
    with True i cw [OF c] show ?thesis
      by (simp add: focus_next_def)
  next
    case False
    with i cw [OF c] t show ?thesis
      by (auto simp add: focus_next_def Let_def tmp_def)
  qed
  from client_manage_focus_effect [OF inv cw [OF t(2)] i t(2)] obtain s' where
    s': "client_manage_focus K (Some t) s = ok s'"
    "registry_inv K s' (L(i := t # remove1 t (L i))) F"
    "statics s' = statics s" "curr_ws s' = curr_ws s" "f_client s' = Some t"
    by blast
  have "wm_wf K s' (L(i := t # remove1 t (L i))) F"
  proof (rule wm_wfI [OF s'(2,3) wf])
    fix j u assume j: "in_ws K j" and u: "u \<in> set ((L(i := t # remove1 t (L i))) j)"
    with t have "u \<in> set (L j)"
      by (auto split: if_splits dest: subsetD [OF set_remove1_subset])
    then show "c_ws (heap s u) = j"
      by (rule wm_wfD(2) [OF wf j])
  qed
  with run s' t show ?thesis
    by auto
qed

lemma client_send_to_ws_effect:
  assumes wf: "wm_wf K s L F"
    and w: "c_ws (heap s a) = w" "in_ws K w"
    and mem: "a \<in> set (L w)"
    and ws: "in_ws K ws"
  shows "\<exists>s' L' F'. client_send_to_ws K (Some a) ws s = ok s' \<and> wm_wf K s' L' F'
     \<and> (\<forall>i. set (L' i) = set (((L(w := remove1 a (L w)))(ws := a # (L(w := remove1 a (L w))) ws)) i))
     \<and> c_ws (heap s' a) = ws
     \<and> (if L' w = [] then f_client s' = None else (\<exists>t\<in>set (L' w). f_client s' = Some t))"
proof -
  note inv = wm_wfD(1) [OF wf]
  define L1 where "L1 = L(w := remove1 a (L w))"
  define F1 where "F1 = F(w := remove1 a (F w))"
  define L3 where "L3 = L1(ws := a # L1 ws)"
  define F3 where "F3 = F1(ws := a # F1 ws)"
  have cw: "c_ws (heap s t) = i" if "in_ws K i" "t \<in> set (L i)" for i t
    using wm_wfD(2) [OF wf that] .
  from registry_invD(1) [OF inv w(2)] have dL: "distinct (L w)"
    by (auto dest: chain_distinct)
  have sub1: "t \<in> set (L i)" if "t \<in> set (L1 i)" for i t
    using that by (auto simp add: L1_def split: if_splits dest: subsetD [OF set_remove1_subset])
  have fresh: "a \<notin> set (L1 i)" if "in_ws K i" for i
  proof (cases "i = w")
    case True
    with dL show ?thesis by (simp add: L1_def)
  next
    case False
    from registry_invD(2) [OF inv that w(2) False] mem show ?thesis
      by (auto simp add: L1_def)
  qed
  \<comment> \<open>delete\<close>
  from client_delete_effect [OF inv w mem] obtain s1 where
    s1: "client_delete K (Some a) s = ok s1" "registry_inv K s1 L1 F1"
    "statics s1 = statics s" "f_client s1 = (if L w = [a] then None else f_client s)"
    unfolding L1_def F1_def by blast
  \<comment> \<open>the workspace field\<close>
  define s2 where "s2 = store a ((heap s1 a)\<lparr>c_ws := ws\<rparr>) s1"
  have prev: "c_ws (heap s1 a) = w"
    using staticsD(4) [OF s1(3)] w by simp
  have p2: "nexts s2 = nexts s1" "f_nexts s2 = f_nexts s1" "c_list s2 = c_list s1" "f_list s2 = f_list s1"
    "f_client s2 = f_client s1" "m_list s2 = m_list s" "ws_m_list s2 = ws_m_list s"
    "c_ws (heap s2 a) = ws" "\<And>t. t \<noteq> a \<Longrightarrow> c_ws (heap s2 t) = c_ws (heap s t)"
    using staticsD [OF s1(3)] by (simp_all add: s2_def)
  from s1(2) p2 have inv2: "registry_inv K s2 L1 F1"
    by (simp add: registry_inv_cong [of s2 s1])
  \<comment> \<open>save\<close>
  from fresh have "\<forall>i. in_ws K i \<longrightarrow> a \<notin> set (L1 i)" by blast
  from client_save_effect [OF inv2 ws this] obtain s3 where
    s3: "client_save K (Some a) ws s2 = ok s3" "registry_inv K s3 L3 F3"
    "statics s3 = statics s2" "f_client s3 = f_client s2"
    unfolding L3_def F3_def by blast
  have wf3: "wm_wf K s3 L3 F3"
  proof (rule wm_wfI2 [OF s3(2) _ _ wf])
    show "m_list s3 = m_list s" "ws_m_list s3 = ws_m_list s"
      using staticsD(2,3) [OF s3(3)] p2 by simp_all
    fix i t assume i: "in_ws K i" and t: "t \<in> set (L3 i)"
    show "c_ws (heap s3 t) = i"
    proof (cases "t = a")
      case True
      with t fresh [OF i] have "i = ws"
        by (auto simp add: L3_def split: if_splits)
      with True staticsD(4) [OF s3(3)] p2 show ?thesis by simp
    next
      case False
      with t have "t \<in> set (L1 i)"
        by (auto simp add: L3_def split: if_splits)
      then have "c_ws (heap s t) = i"
        by (intro cw [OF i] sub1)
      with False staticsD(4) [OF s3(3)] p2 show ?thesis by simp
    qed
  qed
  have a3: "c_ws (heap s3 a) = ws"
    using staticsD(4) [OF s3(3)] p2 by simp
  \<comment> \<open>hide\<close>
  obtain s4 where s4: "client_hide (Some a) s3 = ok s4" and k4: "skel s4 = skel s3"
    using client_hide_skel by blast
  from wf3 have wf4: "wm_wf K s4 L3 F3"
    by (simp add: wm_wf_skel [OF k4])
  from registry_invD(1) [OF wm_wfD(1) [OF wf4] w(2)]
  have cF4: "chain (f_nexts s4) (f_list s4 w) (F3 w)" and LF4: "set (L3 w) = set (F3 w)"
    by simp_all
  have f4: "f_client s4 = (if L w = [a] then None else f_client s)"
    using skelD(3) [OF k4] s3 p2 s1 by simp
  \<comment> \<open>focus on the source workspace\<close>
  have "\<exists>s5 L5. focus_next K (f_list s4 w) s4 = ok s5 \<and> wm_wf K s5 L5 F3
          \<and> (\<forall>i. set (L5 i) = set (L3 i)) \<and> statics s5 = statics s4
          \<and> (if L5 w = [] then f_client s5 = None else (\<exists>t\<in>set (L5 w). f_client s5 = Some t))"
  proof (cases "F3 w")
    case Nil
    with cF4 have "f_list s4 w = None" by simp
    then have r: "focus_next K (f_list s4 w) s4 = ok s4"
      by (simp add: focus_next_def)
    from Nil LF4 have e: "L3 w = []" by simp
    have "L w = [a]"
    proof (rule ccontr)
      assume n: "L w \<noteq> [a]"
      with mem dL obtain t where "t \<in> set (L w)" "t \<noteq> a"
        by (cases "L w"; cases "tl (L w)") auto
      then have "t \<in> set (L1 w)" by (simp add: L1_def)
      then have "t \<in> set (L3 w)" by (auto simp add: L3_def)
      with e show False by simp
    qed
    with r wf4 e f4 show ?thesis
      by (intro exI [of _ s4] exI [of _ L3]) simp
  next
    case (Cons h rest)
    with cF4 have hd: "f_list s4 w = Some h" by simp
    from Cons LF4 have hm: "h \<in> set (L3 w)" by simp
    from focus_next_effect [OF wf4 w(2) hm] obtain s5 t where
      s5: "focus_next K (Some h) s4 = ok s5" "t \<in> set (L3 w)"
      "wm_wf K s5 (L3(w := t # remove1 t (L3 w))) F3" "f_client s5 = Some t"
      "statics s5 = statics s4"
      by blast
    from registry_invD(1) [OF wm_wfD(1) [OF wf4] w(2)] have "distinct (L3 w)"
      by (auto dest: chain_distinct)
    with s5(2) have "\<forall>i. set ((L3(w := t # remove1 t (L3 w))) i) = set (L3 i)"
      by (auto simp add: set_remove1_eq)
    with s5 hd show ?thesis
      by (intro exI [of _ s5] exI [of _ "L3(w := t # remove1 t (L3 w))"]) simp
  qed
  then obtain s5 L5 where
    s5: "focus_next K (f_list s4 w) s4 = ok s5" "wm_wf K s5 L5 F3"
    "\<forall>i. set (L5 i) = set (L3 i)" "statics s5 = statics s4"
    "if L5 w = [] then f_client s5 = None else (\<exists>t\<in>set (L5 w). f_client s5 = Some t)"
    by blast
  have a5: "c_ws (heap s5 a) = ws"
    using staticsD(4) [OF s5(4)] skelD(11) [OF k4] a3 by simp
  \<comment> \<open>show, if safe\<close>
  from ws obtain b where b: "safe_to_focus K ws s5 = ok b"
    by (simp add: safe_to_focus_def)
  have "\<exists>s6. (if b then client_show K (Some a) s5 else ok s5) = ok s6 \<and> skel s6 = skel s5"
  proof (cases b)
    case True
    from wm_wfD(3) [OF s5(2) ws] a5 have "mon_ok K s5 a"
      by (simp add: mon_ok_def)
    from client_show_skel [OF this] True show ?thesis by simp
  next
    case False
    then show ?thesis by simp
  qed
  then obtain s6 where s6: "(if b then client_show K (Some a) s5 else ok s5) = ok s6"
    and k6: "skel s6 = skel s5"
    by blast
  from s1(1) s3(1) s4 s5(1) b s6 prev w(2)
  have run: "client_send_to_ws K (Some a) ws s = ok s6"
    by (simp add: client_send_to_ws_def Let_def s2_def)
  moreover from s5(2) have "wm_wf K s6 L5 F3"
    by (simp add: wm_wf_skel [OF k6])
  moreover have "\<forall>i. set (L5 i) = set (((L(w := remove1 a (L w)))(ws := a # (L(w := remove1 a (L w))) ws)) i)"
    using s5(3) by (simp add: L3_def L1_def)
  moreover have "c_ws (heap s6 a) = ws"
    using skelD(11) [OF k6] a5 by simp
  moreover have "if L5 w = [] then f_client s6 = None else (\<exists>t\<in>set (L5 w). f_client s6 = Some t)"
    using s5(5) skelD(3) [OF k6] by simp
  ultimately show ?thesis
    by blast
qed

lemma wm_wf_wm2: "wm_wf K0 wm2 L2 F2"
  using registry_inv_wm2
  by (auto simp add: wm_wf_def in_ws_K0 L2_def wm2_def wm0_def client0_def)

lemma wm_wf_wm3: "wm_wf K0 wm3 L3 F3"
  by (auto simp add: wm_wf_def registry_inv_def in_ws_K0 L3_def F3_def wm3_def wm0_def client0_def
        nexts_def f_nexts_def)

lemma focus_registered_wm2: "focus_registered K0 wm2 L2"
  by (simp add: focus_registered_def in_ws_K0 L2_def wm2_def wm0_def client0_def)

text \<open>The handlers that test \<open>f_client\<close> first, and \<open>ipc_cycle_focus\<close>, do nothing without a
  focused client.\<close>

lemma guarded_handlers_noop:
  assumes "f_client s = None"
  shows "ipc_move_absolute K d s = ok s" "ipc_move_relative K d s = ok s"
    "ipc_monocle K d s = ok s" "ipc_raise K d s = ok s"
    "ipc_resize_absolute K d s = ok s" "ipc_resize_relative K d s = ok s"
    "ipc_window_close K d s = ok s" "ipc_send_to_ws K d s = ok s"
    "ipc_fullscreen K d s = ok s" "ipc_snap_left K d s = ok s" "ipc_snap_right K d s = ok s"
    "ipc_cycle_focus K d s = ok s"
  using assms
  by (simp_all add: ipc_move_absolute_def ipc_move_relative_def ipc_monocle_def ipc_raise_def
        ipc_resize_absolute_def ipc_resize_relative_def ipc_window_close_def ipc_send_to_ws_def
        ipc_fullscreen_def ipc_snap_left_def ipc_snap_right_def ipc_cycle_focus_def
        focus_next_def)


section \<open>Command handlers without a focused client\<close>

text \<open>
  Claim C1.  Every handler that targets the focused client is a no-op when no client is
  focused.  The handler \<open>ipc_window_center\<close> has no such guard: with no focused client
  it passes the null reference to \<open>client_center\<close>, which reads \<open>c->ws\<close> through it.
  In the state \<open>wm0\<close>, where no client is focused, the handler stops at a null pointer
  access instead of returning.  The handler \<open>ipc_cardinal_focus\<close> has no guard either:
  in \<open>wm2_unfocused\<close>, where no client is focused and the current workspace holds two
  clients, the loop reads the null reference at its first step.
\<close>

theorem ipc_window_center_null_faults:
  "f_client wm0 = None \<and> ipc_window_center K0 (\<lambda>i. 0) wm0 = fault NullPointer
   \<and> f_client wm2_unfocused = None \<and> c_list wm2_unfocused (curr_ws wm2_unfocused) = Some 1
   \<and> ipc_cardinal_focus K0 (\<lambda>i. 0) wm2_unfocused = fault NullPointer"
  by (simp add: ipc_window_center_def client_center_def ipc_cardinal_focus_def
        client_cardinal_focus_def cardinal_scan.simps in_ws_def
        wm2_unfocused_def wm2_def wm0_def K0_def)


section \<open>Focus transfer to no client\<close>

text \<open>
  Claim C2, as stated: \<open>client_manage_focus\<close> with a null client repaints the previously
  focused client with the unfocused colours.  In \<open>wm1\<close> the decorated client 1 is
  focused and nothing has been sent to the Display Surface; after the call the state is
  again \<open>wm1\<close>, so no repaint request has been sent.
\<close>

theorem manage_focus_null_no_repaint:
  "f_client wm1 = Some 1 \<and> decorated (heap wm1 1) \<and> xlog wm1 = []
     \<and> client_manage_focus K0 None wm1 = ok wm1"
  by (simp add: client_manage_focus_def wm1_def wm0_def client0_def)

text \<open>
  Claim C2, amended: \<open>client_manage_focus\<close> with a null client returns and changes
  nothing at all: no request is sent to the Display Surface, the exported active-window
  property is not touched and the focused-client reference keeps its value.
\<close>

theorem manage_focus_null_noop:
  "client_manage_focus K None s = ok s"
  by (simp add: client_manage_focus_def)


section \<open>Stored geometry\<close>

text \<open>
  Claim C6.  For a decorated client, \<open>client_move_absolute\<close> to \<open>(x, y)\<close> followed by
  \<open>client_resize_absolute\<close> to \<open>(w, h)\<close> stores exactly \<open>x\<close>, \<open>y\<close>,
  \<open>max w MINIMUM_DIM\<close> and \<open>max h MINIMUM_DIM\<close>; the border widths and the title
  height only occur in the four requests sent to the Display Surface.
\<close>

theorem move_resize_stored_geometry:
  "decorated (heap s a) \<Longrightarrow>
   \<exists>s'. and_then (client_move_absolute (Some a) x y s) (client_resize_absolute K (Some a) w h) = ok s'
     \<and> geom_x (heap s' a) = x \<and> geom_y (heap s' a) = y
     \<and> geom_width (heap s' a) = max w (MINIMUM_DIM K)
     \<and> geom_height (heap s' a) = max h (MINIMUM_DIM K)
     \<and> xlog s' = xlog s @
         [XMoveWindow (window (heap s a))
            (c_add (c_add x (i_width (conf s))) (b_width (conf s)))
            (c_add (c_add (c_add y (i_width (conf s))) (b_width (conf s))) (t_height (conf s))),
          XMoveWindow (dec (heap s a)) x y,
          XResizeWindow (window (heap s a))
            (max (c_sub (c_sub w (c_mul 2 (i_width (conf s)))) (c_mul 2 (b_width (conf s))))
               (MINIMUM_DIM K))
            (max (c_sub (c_sub (c_sub h (c_mul 2 (i_width (conf s)))) (c_mul 2 (b_width (conf s))))
                    (t_height (conf s)))
               (MINIMUM_DIM K)),
          XResizeWindow (dec (heap s a))
            (max (c_sub w (c_mul 2 (b_width (conf s)))) (MINIMUM_DIM K))
            (max (c_sub h (c_mul 2 (b_width (conf s)))) (MINIMUM_DIM K))]"
  by (simp add: client_move_absolute_eq client_resize_absolute_eq)

theorem move_resize_stored_geometry_witness:
  "decorated (heap wm1 1)
   \<and> (\<exists>s'. and_then (client_move_absolute (Some 1) 7 8 wm1)
              (client_resize_absolute K0 (Some 1) 3 60) = ok s'
        \<and> geom_x (heap s' 1) = 7 \<and> geom_y (heap s' 1) = 8
        \<and> geom_width (heap s' 1) = 5 \<and> geom_height (heap s' 1) = 60
        \<and> xlog s' = [XMoveWindow 11 10 21, XMoveWindow 12 7 8,
                      XResizeWindow 11 5 44, XResizeWindow 12 5 56])"
  using move_resize_stored_geometry [of wm1 1 7 8 K0 3 60]
  by (simp add: wm1_def wm0_def client0_def K0_def c_add_def c_sub_def c_mul_def c_int_def)


section \<open>Edge lock\<close>

text \<open>
  Claim C7, as stated: with edge-lock enabled \<open>client_move_relative\<close> keeps the box of
  the client inside the left, right and bottom edges of its monitor and below the top edge
  offset by the top-gap, and on a monitor of width \<open>W\<close> at origin 0 the stored x of a
  client of width \<open>w\<close> is within \<open>[0, W - w]\<close>.  In \<open>wm_wide\<close> the monitor is 100
  wide at origin 0, the top-gap is 30 and the client is 200 wide at (0, 40); moving it by
  (0, -20) stores x = -100, left of the monitor, and y = 0, above the top-gap.
\<close>

theorem move_relative_clamp_counterexample:
  "edge_lock (conf wm_wide) \<and> top_gap (conf wm_wide) = 30
   \<and> monitor_of K0 wm_wide (c_ws (heap wm_wide 1))
       = Inr \<lparr>mon_x = 0, mon_y = 0, mon_width = 100, mon_height = 100, mon_screen = 0\<rparr>
   \<and> geom_width (heap wm_wide 1) = 200
   \<and> client_move_relative K0 (Some 1) 0 (- 20) wm_wide = ok wm_wide_moved
   \<and> geom_x (heap wm_wide_moved 1) = - 100 \<and> geom_y (heap wm_wide_moved 1) = 0"
  by (simp add: client_move_relative_def client_move_absolute_eq monitor_of_def in_ws_def
        wm_wide_moved_def wm_wide_def wm1_def wm0_def client0_def K0_def
        c_add_def c_sub_def c_int_def)

text \<open>
  Claim C7, amended: with edge-lock enabled, for a client that is no wider and no higher
  than its monitor, a non-negative top-gap and a delta for which the sums of the code do
  not overflow, \<open>client_move_relative\<close> returns, keeps the stored size and stores a
  position whose box lies within the left, right, top and bottom edges of the monitor; on a
  monitor of width \<open>W\<close> at origin 0 the stored x of a client of width \<open>w \<le> W\<close> is
  within \<open>[0, W - w]\<close>.  Nothing is said about the top edge offset by the top-gap.
\<close>

theorem move_relative_clamp:
  assumes el: "edge_lock (conf s)"
    and mon: "monitor_of K s (c_ws (heap s a)) = Inr m"
    and fitw: "geom_width (heap s a) \<le> mon_width m"
    and fith: "geom_height (heap s a) \<le> mon_height m"
    and gap: "0 \<le> top_gap (conf s)"
    and rng: "move_in_range (heap s a) m (conf s) x y"
  shows "\<exists>s'. client_move_relative K (Some a) x y s = ok s'
     \<and> geom_width (heap s' a) = geom_width (heap s a)
     \<and> geom_height (heap s' a) = geom_height (heap s a)
     \<and> mon_x m \<le> geom_x (heap s' a)
     \<and> geom_x (heap s' a) + geom_width (heap s' a) \<le> mon_x m + mon_width m
     \<and> mon_y m \<le> geom_y (heap s' a)
     \<and> geom_y (heap s' a) + geom_height (heap s' a) \<le> mon_y m + mon_height m"
proof -
  let ?cl = "heap s a"
  from rng have r:
    "c_add (c_add (geom_x ?cl) (geom_width ?cl)) x = geom_x ?cl + geom_width ?cl + x"
    "c_add (mon_width m) (mon_x m) = mon_width m + mon_x m"
    "c_sub (mon_width m + mon_x m) (geom_width ?cl) = mon_width m + mon_x m - geom_width ?cl"
    "c_add (geom_x ?cl) x = geom_x ?cl + x"
    "c_add (c_add (geom_y ?cl) (geom_height ?cl)) y = geom_y ?cl + geom_height ?cl + y"
    "c_add (mon_height m) (mon_y m) = mon_height m + mon_y m"
    "c_sub (mon_height m + mon_y m) (geom_height ?cl) = mon_height m + mon_y m - geom_height ?cl"
    "c_add (geom_y ?cl) y = geom_y ?cl + y"
    "c_add (mon_y m) (top_gap (conf s)) = mon_y m + top_gap (conf s)"
    by (simp_all add: move_in_range_def c_add_id c_sub_id)
  show ?thesis
    using el mon fitw fith gap
    by (auto simp add: client_move_relative_def client_move_absolute_eq Let_def r)
qed

theorem move_relative_clamp_witness:
  "edge_lock (conf wm1)
   \<and> monitor_of K0 wm1 (c_ws (heap wm1 1))
       = Inr \<lparr>mon_x = 0, mon_y = 0, mon_width = 100, mon_height = 100, mon_screen = 0\<rparr>
   \<and> geom_width (heap wm1 1) = 50 \<and> geom_height (heap wm1 1) = 50
   \<and> move_in_range (heap wm1 1)
        \<lparr>mon_x = 0, mon_y = 0, mon_width = 100, mon_height = 100, mon_screen = 0\<rparr> (conf wm1) 70 0
   \<and> (\<exists>s'. client_move_relative K0 (Some 1) 70 0 wm1 = ok s'
         \<and> 0 \<le> geom_x (heap s' 1) \<and> geom_x (heap s' 1) + 50 \<le> 100
         \<and> 0 \<le> geom_y (heap s' 1) \<and> geom_y (heap s' 1) + 50 \<le> 100)"
proof -
  let ?m = "\<lparr>mon_x = 0, mon_y = 0, mon_width = 100, mon_height = 100, mon_screen = 0\<rparr>"
  have h1: "edge_lock (conf wm1)"
    by (simp add: wm1_def wm0_def)
  have h2: "monitor_of K0 wm1 (c_ws (heap wm1 1)) = Inr ?m"
    by (simp add: monitor_of_def in_ws_def wm1_def wm0_def client0_def K0_def)
  have h3: "geom_width (heap wm1 1) \<le> mon_width ?m" "geom_height (heap wm1 1) \<le> mon_height ?m"
    "geom_width (heap wm1 1) = 50" "geom_height (heap wm1 1) = 50"
    by (simp_all add: wm1_def wm0_def client0_def)
  have h4: "0 \<le> top_gap (conf wm1)"
    by (simp add: wm1_def wm0_def)
  have h5: "move_in_range (heap wm1 1) ?m (conf wm1) 70 0"
    by (simp add: move_in_range_def int_range_def wm1_def wm0_def client0_def)
  from move_relative_clamp [OF h1 h2 h3(1) h3(2) h4 h5] h1 h2 h3 h5
  show ?thesis by auto
qed


section \<open>Workspaces sharing a monitor\<close>

text \<open>
  Claim C8, as stated: \<open>safe_to_focus ws\<close> is false exactly if another workspace on the
  same monitor has a stacking list that contains a non-hidden client.  In \<open>wm2\<close>
  workspaces 0 and 1 share a monitor and the stacking list of workspace 0 is 1, 2 with
  client 2 not hidden, yet \<open>safe_to_focus 1\<close> is true: the head, client 1, is hidden.
\<close>

theorem safe_to_focus_counterexample:
  "in_ws K0 0 \<and> in_ws K0 1 \<and> ws_m_list wm2 0 = ws_m_list wm2 1
   \<and> c_list wm2 0 = Some 1 \<and> next (heap wm2 1) = Some 2 \<and> \<not> hidden (heap wm2 2)
   \<and> safe_to_focus K0 1 wm2 = ok True"
  by (simp add: safe_to_focus_def in_ws_def K0_def wm2_def wm0_def client0_def upto.simps)

text \<open>
  Claim C8, amended: for a workspace \<open>ws\<close> in range, \<open>safe_to_focus ws\<close> returns false
  if and only if some other workspace mapped to the same monitor has a non-empty stacking
  list whose head client is not hidden.
\<close>

theorem safe_to_focus_head:
  "in_ws K ws \<Longrightarrow>
   safe_to_focus K ws s =
     ok (\<not> (\<exists>i. in_ws K i \<and> i \<noteq> ws \<and> ws_m_list s i = ws_m_list s ws
               \<and> (\<exists>t. c_list s i = Some t \<and> \<not> hidden (heap s t))))"
  by (auto simp add: safe_to_focus_def safe_to_focus_loop_eq in_ws_def)

theorem safe_to_focus_head_witness:
  "in_ws K0 1 \<and> safe_to_focus K0 1 wm1 = ok False"
  using safe_to_focus_head [of K0 1 wm1]
  by (auto simp add: in_ws_def K0_def wm1_def wm0_def client0_def)


section \<open>Fullscreen\<close>

text \<open>
  Claim C10.  \<open>client_fullscreen\<close> moves the client to the origin of its monitor and
  resizes it to the bounds of the monitor whether the fullscreen flag is set or not; the
  geometry from before is not restored.  The two directions differ in the new value of the
  flag and in the data of the exported state property only.
\<close>

theorem fullscreen_both_directions:
  assumes "monitor_of K s (c_ws (heap s a)) = Inr m"
  shows "client_fullscreen K (Some a) s =
     ok (s\<lparr>heap := (heap s)(a := (heap s a)\<lparr>geom_x := mon_x m, geom_y := mon_y m,
               geom_width := max (mon_width m) (MINIMUM_DIM K),
               geom_height := max (mon_height m) (MINIMUM_DIM K),
               fullscreen := \<not> fullscreen (heap s a)\<rparr>),
            xlog := xlog s
              @ (if decorated (heap s a)
                 then [XMoveWindow (window (heap s a))
                         (c_add (c_add (mon_x m) (i_width (conf s))) (b_width (conf s)))
                         (c_add (c_add (c_add (mon_y m) (i_width (conf s))) (b_width (conf s)))
                            (t_height (conf s))),
                       XMoveWindow (dec (heap s a)) (mon_x m) (mon_y m),
                       XResizeWindow (window (heap s a))
                         (max (c_sub (c_sub (mon_width m) (c_mul 2 (i_width (conf s))))
                                 (c_mul 2 (b_width (conf s)))) (MINIMUM_DIM K))
                         (max (c_sub (c_sub (c_sub (mon_height m) (c_mul 2 (i_width (conf s))))
                                        (c_mul 2 (b_width (conf s)))) (t_height (conf s)))
                            (MINIMUM_DIM K)),
                       XResizeWindow (dec (heap s a))
                         (max (c_sub (mon_width m) (c_mul 2 (b_width (conf s)))) (MINIMUM_DIM K))
                         (max (c_sub (mon_height m) (c_mul 2 (b_width (conf s)))) (MINIMUM_DIM K))]
                 else [XMoveWindow (window (heap s a)) (mon_x m) (mon_y m),
                       XResizeWindow (window (heap s a)) (max (mon_width m) (MINIMUM_DIM K))
                         (max (mon_height m) (MINIMUM_DIM K))])
              @ [XChangeProperty (window (heap s a)) NetWMState PropModeReplace
                   (if fullscreen (heap s a) then [] else [XAtom NetWMStateFullscreen])]\<rparr>)"
  using assms
  by (simp add: client_fullscreen_def client_move_absolute_eq client_resize_absolute_eq
        Let_def emit_def store_def)

theorem fullscreen_both_directions_witness:
  "monitor_of K0 wm1 (c_ws (heap wm1 1))
     = Inr \<lparr>mon_x = 0, mon_y = 0, mon_width = 100, mon_height = 100, mon_screen = 0\<rparr>
   \<and> client_fullscreen K0 (Some 1) wm1 =
       ok (wm1\<lparr>heap := (heap wm1)(1 := (heap wm1 1)\<lparr>geom_x := 0, geom_y := 0,
                   geom_width := 100, geom_height := 100, fullscreen := True\<rparr>),
               xlog := [XMoveWindow 11 3 13, XMoveWindow 12 0 0,
                        XResizeWindow 11 94 84, XResizeWindow 12 96 96,
                        XChangeProperty 11 NetWMState PropModeReplace [XAtom NetWMStateFullscreen]]\<rparr>)"
proof -
  have h: "monitor_of K0 wm1 (c_ws (heap wm1 1))
     = Inr \<lparr>mon_x = 0, mon_y = 0, mon_width = 100, mon_height = 100, mon_screen = 0\<rparr>"
    by (simp add: monitor_of_def in_ws_def wm1_def wm0_def client0_def K0_def)
  show ?thesis
    using fullscreen_both_directions [OF h] h
    by (simp add: wm1_def wm0_def client0_def K0_def c_add_def c_sub_def c_mul_def c_int_def)
qed


section \<open>Cardinal focus\<close>

text \<open>
  Claim C9.  In a well-formed state \<open>client_cardinal_focus\<close> returns.  It scans the whole
  stacking list of the current workspace, hidden clients included, and keeps the clients
  strictly on the requested side of \<open>c\<close>.  The first of them, in list order, whose distance
  from \<open>c\<close> is the minimum becomes the focused client: the call is the focus transfer to
  that client, which also moves it to the front of the stacking list.  With no client on
  the requested side the state is returned unchanged.  The distance is whatever
  \<open>euclidean_distance\<close> computes; for the candidates it is below \<open>INT_MAX\<close>, the initial
  value of \<open>min\<close>.
\<close>

theorem cardinal_focus_nearest_first:
  assumes wf: "wm_wf K s L F"
    and cur: "in_ws K (curr_ws s)"
    and far: "candidates_below_INT_MAX K s a dir (L (curr_ws s))"
  shows "case nearest_first (\<lambda>t. euclidean_distance K (heap s a) (heap s t))
             (filter (\<lambda>t. on_side dir (heap s a) (heap s t)) (L (curr_ws s))) of
        None \<Rightarrow> client_cardinal_focus K (Some a) dir s = ok s
      | Some t \<Rightarrow>
          (\<exists>s'. client_cardinal_focus K (Some a) dir s = ok s'
             \<and> client_manage_focus K (Some t) s = ok s'
             \<and> f_client s' = Some t \<and> t \<in> set (L (curr_ws s))
             \<and> wm_wf K s' (L(curr_ws s := t # remove1 t (L (curr_ws s)))) F
             \<and> statics s' = statics s \<and> curr_ws s' = curr_ws s)"
proof -
  let ?w = "curr_ws s"
  let ?side = "\<lambda>t. on_side dir (heap s a) (heap s t)"
  let ?d = "\<lambda>t. euclidean_distance K (heap s a) (heap s t)"
  note inv = wm_wfD(1) [OF wf]
  from registry_invD(1) [OF inv cur] have ch: "chain (nexts s) (c_list s ?w) (L ?w)"
    by simp
  from far have ex: "(\<exists>t\<in>set (filter ?side (L ?w)). ?d t < INT_MAX) = (filter ?side (L ?w) \<noteq> [])"
    by (auto simp add: filter_empty_conv candidates_below_INT_MAX_def)
  have pick: "cardinal_pick ?side ?d (L ?w) None INT_MAX = nearest_first ?d (filter ?side (L ?w))"
    unfolding cardinal_pick_nearest ex nearest_first_def by simp
  show ?thesis
  proof (cases "nearest_first ?d (filter ?side (L ?w))")
    case None
    with cur pick show ?thesis
      by (simp add: client_cardinal_focus_def cardinal_scan_pick [OF ch])
  next
    case (Some t)
    define cs where "cs = filter ?side (L ?w)"
    from Some have "find (\<lambda>t. ?d t = Min (?d ` set cs)) cs = Some t"
      unfolding cs_def by (simp add: nearest_first_def split: if_splits)
    then obtain i where "i < length cs" "t = cs ! i"
      unfolding find_Some_iff by blast
    then have "t \<in> set cs"
      by simp
    then have mem: "t \<in> set (L ?w)"
      by (simp add: cs_def)
    from wm_wfD(2) [OF wf cur mem] have tw: "c_ws (heap s t) = ?w" .
    from client_manage_focus_effect [OF inv tw cur mem] obtain s' where s':
      "client_manage_focus K (Some t) s = ok s'"
      "registry_inv K s' (L(?w := t # remove1 t (L ?w))) F"
      "statics s' = statics s" "curr_ws s' = curr_ws s" "f_client s' = Some t"
      by blast
    have wf': "wm_wf K s' (L(?w := t # remove1 t (L ?w))) F"
    proof (rule wm_wfI [OF s'(2,3) wf])
      fix i u assume i: "in_ws K i" and u: "u \<in> set ((L(?w := t # remove1 t (L ?w))) i)"
      with mem have "u \<in> set (L i)"
        by (auto split: if_splits dest: subsetD [OF set_remove1_subset])
      then show "c_ws (heap s u) = i"
        by (rule wm_wfD(2) [OF wf i])
    qed
    from cur pick Some s'(1)
    have "client_cardinal_focus K (Some a) dir s = ok s'"
      by (simp add: client_cardinal_focus_def cardinal_scan_pick [OF ch])
    with s' wf' mem Some show ?thesis
      by simp
  qed
qed

theorem cardinal_focus_nearest_first_witness:
  "wm_wf K0 wm3 L3 F3 \<and> in_ws K0 (curr_ws wm3) \<and> L3 (curr_ws wm3) = [1, 2, 3]
   \<and> candidates_below_INT_MAX K0 wm3 1 (Some EAST) (L3 (curr_ws wm3))
   \<and> candidates_below_INT_MAX K0 wm3 1 (Some WEST) (L3 (curr_ws wm3))
   \<and> f_client wm3 = Some 1 \<and> hidden (heap wm3 2)
   \<and> (\<exists>s'. client_cardinal_focus K0 (Some 1) (Some EAST) wm3 = ok s' \<and> f_client s' = Some 2
          \<and> chain (nexts s') (c_list s' 0) [2, 1, 3] \<and> chain (f_nexts s') (f_list s' 0) [3, 2, 1])
   \<and> client_cardinal_focus K0 (Some 1) (Some WEST) wm3 = ok wm3"
proof -
  have h2: "in_ws K0 (curr_ws wm3)" "curr_ws wm3 = 0" "in_ws K0 0"
    by (simp_all add: in_ws_K0 wm3_def wm0_def)
  have l: "L3 (curr_ws wm3) = [1, 2, 3]" "L3 0 = [1, 2, 3]" "F3 0 = [3, 2, 1]"
    by (simp_all add: L3_def F3_def wm3_def wm0_def)
  have h3: "candidates_below_INT_MAX K0 wm3 1 dir (L3 (curr_ws wm3))" for dir
    unfolding l
    by (simp add: candidates_below_INT_MAX_def wm3_def wm0_def client0_def K0_def INT_MAX_def)
  have h4: "f_client wm3 = Some 1" "hidden (heap wm3 2)"
    by (simp_all add: wm3_def wm0_def client0_def)
  have e: "nearest_first (\<lambda>t. euclidean_distance K0 (heap wm3 1) (heap wm3 t))
             (filter (\<lambda>t. on_side (Some EAST) (heap wm3 1) (heap wm3 t)) (L3 (curr_ws wm3))) = Some 2"
    unfolding l
    by (simp add: nearest_first_def on_side_def wm3_def wm0_def client0_def K0_def)
  have w: "nearest_first (\<lambda>t. euclidean_distance K0 (heap wm3 1) (heap wm3 t))
             (filter (\<lambda>t. on_side (Some WEST) (heap wm3 1) (heap wm3 t)) (L3 (curr_ws wm3))) = None"
    unfolding l
    by (simp add: nearest_first_def on_side_def wm3_def wm0_def client0_def K0_def)
  from cardinal_focus_nearest_first [OF wm_wf_wm3 h2(1) h3, of "Some EAST"] obtain s' where s':
    "client_cardinal_focus K0 (Some 1) (Some EAST) wm3 = ok s'" "f_client s' = Some 2"
    "wm_wf K0 s' (L3(curr_ws wm3 := 2 # remove1 2 (L3 (curr_ws wm3)))) F3"
    unfolding e by auto
  from registry_invD(1) [OF wm_wfD(1) [OF s'(3)] h2(3)] l h2(2)
  have c: "chain (nexts s') (c_list s' 0) [2, 1, 3]" "chain (f_nexts s') (f_list s' 0) [3, 2, 1]"
    by simp_all
  have t2: "client_cardinal_focus K0 (Some 1) (Some WEST) wm3 = ok wm3"
    using cardinal_focus_nearest_first [OF wm_wf_wm3 h2(1) h3, of "Some WEST"] unfolding w by simp
  from s'(1,2) c t2 wm_wf_wm3 h2(1) l(1) h3 [of "Some EAST"] h3 [of "Some WEST"] h4 show ?thesis
    by blast
qed


section \<open>The registry invariant\<close>

text \<open>
  Claim C4.  From a state in which, for every workspace, the stacking list and the focus
  list have the same members and no client is in the lists of two workspaces, each registry
  operation returns and leads to such a state again: \<open>client_save\<close> of a client that is in
  no list, \<open>client_delete\<close> and \<open>client_move_to_front\<close> of a client that is in the lists
  of the workspace it records.  \<open>client_move_to_front\<close> reorders the stacking list only, so
  the two lists may order their members differently.
\<close>

theorem registry_operations_keep_invariant:
  assumes inv: "registry_inv K s L F"
  shows "(in_ws K ws \<and> unregistered K L a \<longrightarrow>
            (\<exists>s'. client_save K (Some a) ws s = ok s'
                 \<and> registry_inv K s' (L(ws := a # L ws)) (F(ws := a # F ws))))
       \<and> (in_ws K (c_ws (heap s a)) \<and> a \<in> set (L (c_ws (heap s a))) \<longrightarrow>
            (\<exists>s'. client_delete K (Some a) s = ok s'
                 \<and> registry_inv K s' (L(c_ws (heap s a) := remove1 a (L (c_ws (heap s a)))))
                      (F(c_ws (heap s a) := remove1 a (F (c_ws (heap s a)))))))
       \<and> (in_ws K (c_ws (heap s a)) \<and> a \<in> set (L (c_ws (heap s a))) \<longrightarrow>
            (\<exists>s'. client_move_to_front K (Some a) s = ok s'
                 \<and> registry_inv K s' (L(c_ws (heap s a) := a # remove1 a (L (c_ws (heap s a))))) F))"
proof (intro conjI impI)
  assume "in_ws K ws \<and> unregistered K L a"
  with client_save_effect [OF inv, of ws a]
  show "\<exists>s'. client_save K (Some a) ws s = ok s'
                 \<and> registry_inv K s' (L(ws := a # L ws)) (F(ws := a # F ws))"
    unfolding unregistered_def by blast
next
  assume "in_ws K (c_ws (heap s a)) \<and> a \<in> set (L (c_ws (heap s a)))"
  with client_delete_effect [OF inv refl, of a]
  show "\<exists>s'. client_delete K (Some a) s = ok s'
                 \<and> registry_inv K s' (L(c_ws (heap s a) := remove1 a (L (c_ws (heap s a)))))
                      (F(c_ws (heap s a) := remove1 a (F (c_ws (heap s a)))))"
    by blast
next
  assume "in_ws K (c_ws (heap s a)) \<and> a \<in> set (L (c_ws (heap s a)))"
  with client_move_to_front_effect [OF inv refl, of a]
  show "\<exists>s'. client_move_to_front K (Some a) s = ok s'
                 \<and> registry_inv K s' (L(c_ws (heap s a) := a # remove1 a (L (c_ws (heap s a))))) F"
    by blast
qed

theorem registry_operations_keep_invariant_witness:
  "registry_inv K0 wm2 L2 F2 \<and> L2 0 = [1, 2] \<and> F2 0 = [2, 1]
   \<and> in_ws K0 1 \<and> unregistered K0 L2 3
   \<and> (\<exists>s'. client_save K0 (Some 3) 1 wm2 = ok s'
          \<and> registry_inv K0 s' (L2(1 := [3])) (F2(1 := [3])))
   \<and> in_ws K0 (c_ws (heap wm2 2)) \<and> 2 \<in> set (L2 (c_ws (heap wm2 2)))
   \<and> (\<exists>s'. client_delete K0 (Some 2) wm2 = ok s'
          \<and> registry_inv K0 s' (L2(0 := [1])) (F2(0 := [1])))
   \<and> (\<exists>s'. client_move_to_front K0 (Some 2) wm2 = ok s'
          \<and> registry_inv K0 s' (L2(0 := [2, 1])) F2)"
proof -
  have w: "c_ws (heap wm2 2) = 0" "c_ws (heap wm2 3) = 0"
    by (simp_all add: wm2_def wm0_def client0_def)
  have h: "in_ws K0 1" "unregistered K0 L2 3" "in_ws K0 0" "2 \<in> set (L2 0)"
    "L2 0 = [1, 2]" "F2 0 = [2, 1]" "L2 1 = []" "F2 1 = []"
    by (simp_all add: in_ws_K0 L2_def F2_def unregistered_def)
  from registry_operations_keep_invariant [OF registry_inv_wm2, of 1 3] registry_operations_keep_invariant [OF registry_inv_wm2, of 1 2] registry_inv_wm2 h w
  show ?thesis
    by simp
qed


section \<open>Deleting a saved client\<close>

text \<open>
  Claim C5.  Let the client record workspace \<open>w\<close>.  If it has been saved to \<open>w\<close> and is still
  registered there, \<open>client_delete\<close> returns; afterwards the stacking list and the focus
  list of \<open>w\<close> are the former lists without the client, which occurs in neither, and the
  head of the stacking list is the same as before unless the client was the head.  If it is
  registered nowhere, \<open>client_save\<close> to \<open>w\<close> followed by \<open>client_delete\<close> returns, and
  gives back the lists that \<open>w\<close> had before the save, with the same head; the client occurs
  in neither.
\<close>

theorem delete_unlinks_client:
  assumes inv: "registry_inv K s L F"
    and w: "c_ws (heap s a) = w" "in_ws K w"
  shows "(a \<in> set (L w) \<longrightarrow>
            (\<exists>s'. client_delete K (Some a) s = ok s'
               \<and> chain (nexts s') (c_list s' w) (remove1 a (L w)) \<and> a \<notin> set (remove1 a (L w))
               \<and> chain (f_nexts s') (f_list s' w) (remove1 a (F w)) \<and> a \<notin> set (remove1 a (F w))
               \<and> (c_list s w \<noteq> Some a \<longrightarrow> c_list s' w = c_list s w)))
       \<and> (unregistered K L a \<longrightarrow>
            (\<exists>s1 s2. client_save K (Some a) w s = ok s1 \<and> client_delete K (Some a) s1 = ok s2
               \<and> chain (nexts s2) (c_list s2 w) (L w) \<and> a \<notin> set (L w)
               \<and> chain (f_nexts s2) (f_list s2 w) (F w) \<and> a \<notin> set (F w)
               \<and> c_list s2 w = c_list s w \<and> registry_inv K s2 L F))"
proof (intro conjI impI)
  assume mem: "a \<in> set (L w)"
  from registry_invD(1) [OF inv w(2)] have "distinct (L w)" "distinct (F w)"
    by (auto dest: chain_distinct)
  then have nin: "a \<notin> set (remove1 a (L w))" "a \<notin> set (remove1 a (F w))"
    by (simp_all add: set_remove1_eq)
  from client_delete_effect [OF inv w mem] obtain s' where s':
    "client_delete K (Some a) s = ok s'"
    "registry_inv K s' (L(w := remove1 a (L w))) (F(w := remove1 a (F w)))"
    "c_list s' w = (if c_list s w = Some a then nexts s a else c_list s w)"
    by blast
  from registry_invD(1) [OF s'(2) w(2)] s'(1,3) nin
  show "\<exists>s'. client_delete K (Some a) s = ok s'
               \<and> chain (nexts s') (c_list s' w) (remove1 a (L w)) \<and> a \<notin> set (remove1 a (L w))
               \<and> chain (f_nexts s') (f_list s' w) (remove1 a (F w)) \<and> a \<notin> set (remove1 a (F w))
               \<and> (c_list s w \<noteq> Some a \<longrightarrow> c_list s' w = c_list s w)"
    by auto
next
  assume "unregistered K L a"
  then have fresh: "\<forall>i. in_ws K i \<longrightarrow> a \<notin> set (L i)"
    by (simp add: unregistered_def)
  with w(2) have nL: "a \<notin> set (L w)" by simp
  with registry_invD(1) [OF inv w(2)] have nF: "a \<notin> set (F w)" by simp
  let ?L1 = "L(w := a # L w)" and ?F1 = "F(w := a # F w)"
  from client_save_effect [OF inv w(2) fresh] obtain s1 where s1:
    "client_save K (Some a) w s = ok s1" "registry_inv K s1 ?L1 ?F1" "statics s1 = statics s"
    by blast
  from s1(3) w(1) have w1: "c_ws (heap s1 a) = w"
    by (auto simp add: statics_def fun_eq_iff)
  have mem1: "a \<in> set (?L1 w)" by simp
  from client_delete_effect [OF s1(2) w1 w(2) mem1] obtain s2 where s2:
    "client_delete K (Some a) s1 = ok s2"
    "registry_inv K s2 (?L1(w := remove1 a (?L1 w))) (?F1(w := remove1 a (?F1 w)))"
    "c_list s2 w = (if c_list s1 w = Some a then nexts s1 a else c_list s1 w)"
    by blast
  have restored: "?L1(w := remove1 a (?L1 w)) = L" "?F1(w := remove1 a (?F1 w)) = F"
    by (simp_all add: fun_upd_idem)
  from s2(2) have inv2: "registry_inv K s2 L F"
    unfolding restored .
  from registry_invD(1) [OF s1(2) w(2)] have "c_list s1 w = Some a" "nexts s1 a = c_list s2 w"
    using s2(3) by simp_all
  moreover from registry_invD(1) [OF s1(2) w(2)] registry_invD(1) [OF inv w(2)] nL
  have "nexts s1 a = c_list s w"
    by (cases "L w") (auto)
  ultimately have hd: "c_list s2 w = c_list s w" by simp
  from s1(1) s2(1) registry_invD(1) [OF inv2 w(2)] nL nF hd inv2
  show "\<exists>s1 s2. client_save K (Some a) w s = ok s1 \<and> client_delete K (Some a) s1 = ok s2
               \<and> chain (nexts s2) (c_list s2 w) (L w) \<and> a \<notin> set (L w)
               \<and> chain (f_nexts s2) (f_list s2 w) (F w) \<and> a \<notin> set (F w)
               \<and> c_list s2 w = c_list s w \<and> registry_inv K s2 L F"
    by blast
qed

theorem delete_unlinks_client_witness:
  "registry_inv K0 wm2 L2 F2 \<and> c_ws (heap wm2 2) = 0 \<and> c_ws (heap wm2 3) = 0 \<and> in_ws K0 0
   \<and> 2 \<in> set (L2 0) \<and> unregistered K0 L2 3 \<and> c_list wm2 0 = Some 1
   \<and> (\<exists>s'. client_delete K0 (Some 2) wm2 = ok s'
          \<and> chain (nexts s') (c_list s' 0) [1] \<and> chain (f_nexts s') (f_list s' 0) [1]
          \<and> c_list s' 0 = Some 1)
   \<and> (\<exists>s1 s2. client_save K0 (Some 3) 0 wm2 = ok s1 \<and> client_delete K0 (Some 3) s1 = ok s2
          \<and> chain (nexts s2) (c_list s2 0) [1, 2] \<and> chain (f_nexts s2) (f_list s2 0) [2, 1]
          \<and> c_list s2 0 = Some 1)"
proof -
  have h: "c_ws (heap wm2 2) = 0" "c_ws (heap wm2 3) = 0" "in_ws K0 0" "2 \<in> set (L2 0)"
    "unregistered K0 L2 3" "c_list wm2 0 = Some 1" "L2 0 = [1, 2]" "F2 0 = [2, 1]"
    by (simp_all add: in_ws_K0 L2_def F2_def unregistered_def wm2_def wm0_def client0_def)
  from delete_unlinks_client [OF registry_inv_wm2 h(1) h(3)] h
  have d: "\<exists>s'. client_delete K0 (Some 2) wm2 = ok s'
          \<and> chain (nexts s') (c_list s' 0) [1] \<and> chain (f_nexts s') (f_list s' 0) [1]
          \<and> c_list s' 0 = Some 1"
    by auto
  from delete_unlinks_client [OF registry_inv_wm2 h(2) h(3)] h
  have sd: "\<exists>s1 s2. client_save K0 (Some 3) 0 wm2 = ok s1 \<and> client_delete K0 (Some 3) s1 = ok s2
          \<and> chain (nexts s2) (c_list s2 0) [1, 2] \<and> chain (f_nexts s2) (f_list s2 0) [2, 1]
          \<and> c_list s2 0 = Some 1"
    by auto
  from registry_inv_wm2 h d sd show ?thesis
    by blast
qed


section \<open>The focused-client reference\<close>

text \<open>
  Claim C3, as stated: after every operation the focused client, if there is one, is in the
  stacking list of the current workspace.  In \<open>wm1\<close> client 1 is focused; after the switch
  to the empty workspace 1 it is still the focused client, the current workspace is 1 and
  its stacking list is empty.  In \<open>wm2\<close> the stacking list of the current workspace 0 is
  1, 2 and client 2 is focused; after its deletion the list is 1 and the focused client is
  still client 2.
\<close>

theorem focus_reference_counterexample:
  "f_client wm1 = Some 1 \<and> switch_ws K0 1 wm1 = ok wm1_switched
   \<and> f_client wm1_switched = Some 1 \<and> curr_ws wm1_switched = 1 \<and> c_list wm1_switched 1 = None
   \<and> f_client wm2 = Some 2 \<and> curr_ws wm2 = 0 \<and> c_list wm2 0 = Some 1 \<and> next (heap wm2 1) = Some 2
   \<and> client_delete K0 (Some 2) wm2 = ok wm2_deleted
   \<and> f_client wm2_deleted = Some 2 \<and> curr_ws wm2_deleted = 0
   \<and> c_list wm2_deleted 0 = Some 1 \<and> next (heap wm2_deleted 1) = None"
  using switch_ws_wm1 client_delete_wm2
  by (simp add: wm1_switched_def wm2_deleted_def wm1_def wm2_def wm0_def client0_def)

text \<open>
  Claim C3, amended: in a well-formed state, the focused client, if there is one, is in the
  stacking list of the workspace it records, which need not be the current one.  This is
  maintained by \<open>client_save\<close> of an unregistered client, by \<open>client_delete\<close> of a client
  other than the focused one or of the only client of its workspace, by a focus transfer to
  a registered client, by \<open>switch_ws\<close> and by \<open>client_send_to_ws\<close>; all of them return.
  \<open>client_delete\<close> clears the reference exactly if the stacking list of the deleted
  client's workspace becomes empty.  \<open>switch_ws\<close> makes the head of the stacking list of
  the new current workspace the focused client and leaves the reference as it is when that
  list is empty.  After \<open>client_send_to_ws\<close> the focused client is in the stacking list of
  the source workspace, and there is none if that list is empty.
\<close>

theorem focus_reference_registered:
  assumes wf: "wm_wf K s L F" and fr: "focus_registered K s L"
  shows
   "(in_ws K ws \<and> unregistered K L a \<and> c_ws (heap s a) = ws \<longrightarrow>
       (\<exists>s'. client_save K (Some a) ws s = ok s'
            \<and> wm_wf K s' (L(ws := a # L ws)) (F(ws := a # F ws))
            \<and> focus_registered K s' (L(ws := a # L ws)) \<and> f_client s' = f_client s))
    \<and> (in_ws K (c_ws (heap s a)) \<and> a \<in> set (L (c_ws (heap s a)))
        \<and> (f_client s \<noteq> Some a \<or> L (c_ws (heap s a)) = [a]) \<longrightarrow>
       (\<exists>s'. client_delete K (Some a) s = ok s'
            \<and> wm_wf K s' (L(c_ws (heap s a) := remove1 a (L (c_ws (heap s a)))))
                          (F(c_ws (heap s a) := remove1 a (F (c_ws (heap s a)))))
            \<and> focus_registered K s' (L(c_ws (heap s a) := remove1 a (L (c_ws (heap s a)))))
            \<and> f_client s' = (if L (c_ws (heap s a)) = [a] then None else f_client s)))
    \<and> (in_ws K (c_ws (heap s a)) \<and> a \<in> set (L (c_ws (heap s a))) \<longrightarrow>
       (\<exists>s'. client_manage_focus K (Some a) s = ok s'
            \<and> wm_wf K s' (L(c_ws (heap s a) := a # remove1 a (L (c_ws (heap s a))))) F
            \<and> focus_registered K s' (L(c_ws (heap s a) := a # remove1 a (L (c_ws (heap s a)))))
            \<and> f_client s' = Some a))
    \<and> (in_ws K ws \<longrightarrow>
       (\<exists>s'. switch_ws K ws s = ok s' \<and> wm_wf K s' L F \<and> focus_registered K s' L
            \<and> curr_ws s' = ws
            \<and> f_client s' = (case L ws of [] \<Rightarrow> f_client s | h # rest \<Rightarrow> Some h)))
    \<and> (in_ws K (c_ws (heap s a)) \<and> a \<in> set (L (c_ws (heap s a))) \<and> in_ws K ws \<longrightarrow>
       (\<exists>s' L' F'. client_send_to_ws K (Some a) ws s = ok s' \<and> wm_wf K s' L' F'
            \<and> focus_registered K s' L' \<and> a \<in> set (L' ws)
            \<and> (if L' (c_ws (heap s a)) = [] then f_client s' = None
                else (\<exists>t\<in>set (L' (c_ws (heap s a))). f_client s' = Some t))))"
proof -
  have five: "\<exists>s' L' F'. client_send_to_ws K (Some a) ws s = ok s' \<and> wm_wf K s' L' F'
            \<and> focus_registered K s' L' \<and> a \<in> set (L' ws)
            \<and> (if L' (c_ws (heap s a)) = [] then f_client s' = None
                else (\<exists>t\<in>set (L' (c_ws (heap s a))). f_client s' = Some t))"
    if a: "in_ws K (c_ws (heap s a)) \<and> a \<in> set (L (c_ws (heap s a))) \<and> in_ws K ws"
  proof -
    let ?w = "c_ws (heap s a)"
    from a client_send_to_ws_effect [OF wf refl, of a ws] obtain s' L' F' where
      s': "client_send_to_ws K (Some a) ws s = ok s'" "wm_wf K s' L' F'"
      "\<forall>i. set (L' i) = set (((L(?w := remove1 a (L ?w)))(ws := a # (L(?w := remove1 a (L ?w))) ws)) i)"
      "if L' ?w = [] then f_client s' = None else (\<exists>t\<in>set (L' ?w). f_client s' = Some t)"
      by blast
    from s'(3) have m: "a \<in> set (L' ws)" by simp
    have "focus_registered K s' L'"
    proof (rule focus_registeredI)
      fix f assume f: "f_client s' = Some f"
      with s'(4) have "f \<in> set (L' ?w)"
        by (auto split: if_splits)
      with wm_wfD(2) [OF s'(2), of ?w f] a
      show "in_ws K (c_ws (heap s' f)) \<and> f \<in> set (L' (c_ws (heap s' f)))"
        by simp
    qed
    with s' m show ?thesis by blast
  qed
  from focus_registered_kept [OF wf fr, of ws a] five show ?thesis
    by blast
qed

theorem focus_reference_registered_witness:
  "wm_wf K0 wm2 L2 F2 \<and> focus_registered K0 wm2 L2 \<and> f_client wm2 = Some 2
   \<and> L2 0 = [1, 2] \<and> L2 1 = []
   \<and> in_ws K0 0 \<and> in_ws K0 1 \<and> unregistered K0 L2 3 \<and> c_ws (heap wm2 3) = 0
   \<and> c_ws (heap wm2 1) = 0 \<and> c_ws (heap wm2 2) = 0
   \<and> (\<exists>s'. client_save K0 (Some 3) 0 wm2 = ok s'
          \<and> focus_registered K0 s' (L2(0 := [3, 1, 2])) \<and> f_client s' = Some 2)
   \<and> (\<exists>s'. client_delete K0 (Some 1) wm2 = ok s'
          \<and> focus_registered K0 s' (L2(0 := [2])) \<and> f_client s' = Some 2)
   \<and> (\<exists>s'. client_manage_focus K0 (Some 1) wm2 = ok s'
          \<and> focus_registered K0 s' (L2(0 := [1, 2])) \<and> f_client s' = Some 1)
   \<and> (\<exists>s'. switch_ws K0 1 wm2 = ok s' \<and> focus_registered K0 s' L2
          \<and> curr_ws s' = 1 \<and> f_client s' = Some 2)
   \<and> (\<exists>s'. switch_ws K0 0 wm2 = ok s' \<and> focus_registered K0 s' L2
          \<and> curr_ws s' = 0 \<and> f_client s' = Some 1)
   \<and> (\<exists>s' L' F'. client_send_to_ws K0 (Some 2) 1 wm2 = ok s' \<and> wm_wf K0 s' L' F'
          \<and> focus_registered K0 s' L' \<and> 2 \<in> set (L' 1))"
proof -
  have h: "f_client wm2 = Some 2" "L2 0 = [1, 2]" "L2 1 = []" "F2 0 = [2, 1]" "in_ws K0 0" "in_ws K0 1"
    "unregistered K0 L2 3" "c_ws (heap wm2 3) = 0" "c_ws (heap wm2 1) = 0" "c_ws (heap wm2 2) = 0"
    by (simp_all add: in_ws_K0 L2_def F2_def unregistered_def wm2_def wm0_def client0_def)
  note t = focus_reference_registered [OF wm_wf_wm2 focus_registered_wm2]
  from t [of 0 3] have save: "\<exists>s'. client_save K0 (Some 3) 0 wm2 = ok s'
          \<and> focus_registered K0 s' (L2(0 := [3, 1, 2])) \<and> f_client s' = Some 2"
    using h by auto
  from t [of 1 1] have del: "\<exists>s'. client_delete K0 (Some 1) wm2 = ok s'
          \<and> focus_registered K0 s' (L2(0 := [2])) \<and> f_client s' = Some 2"
    using h by auto
  from t [of 1 1] have foc: "\<exists>s'. client_manage_focus K0 (Some 1) wm2 = ok s'
          \<and> focus_registered K0 s' (L2(0 := [1, 2])) \<and> f_client s' = Some 1"
    using h by auto
  from t [of 1 1] have sw1: "\<exists>s'. switch_ws K0 1 wm2 = ok s' \<and> focus_registered K0 s' L2
          \<and> curr_ws s' = 1 \<and> f_client s' = Some 2"
    using h by auto
  from t [of 0 3] have sw0: "\<exists>s'. switch_ws K0 0 wm2 = ok s' \<and> focus_registered K0 s' L2
          \<and> curr_ws s' = 0 \<and> f_client s' = Some 1"
    using h by auto
  from t [of 1 2] have snd: "\<exists>s' L' F'. client_send_to_ws K0 (Some 2) 1 wm2 = ok s' \<and> wm_wf K0 s' L' F'
          \<and> focus_registered K0 s' L' \<and> 2 \<in> set (L' 1)"
    using h by auto
  from wm_wf_wm2 focus_registered_wm2 h save del foc sw1 sw0 snd show ?thesis
    by blast
qed

end
